theory Spec2Isabelle
  imports Main "HOL-Library.AList"
begin

section \<open>Python values and the column store\<close>

text \<open>
  The exceptions the modelled code raises. \<open>NotADict\<close> is
  \<^verbatim>\<open>Exception("The result of func is not a dict")\<close>; \<open>ApplyResultException\<close>
  carries the \<open>index\<close> attribute of the class of that name (dataset.py, lines 32-36);
  \<open>Raised\<close> is any other exception, named by its text, so that a user function
  may raise anything.
\<close>

datatype error =
    AssertionError
  | RuntimeError
  | IndexError
  | KeyError string
  | ValueError
  | TypeError
  | ZeroDivisionError
  | AttributeError
  | NotADict
  | ApplyResultException int
  | Raised string

text \<open>
  Modelled from the spec: \<^verbatim>\<open>Instance\<close> (instance.py is not among the sources). A row
  is "a mapping from field name to that row's value"; the code builds one with
  \<^verbatim>\<open>Instance(**{name: ...})\<close> and reads it with \<^verbatim>\<open>items()\<close>, \<^verbatim>\<open>fields\<close> and
  \<^verbatim>\<open>ins[name]\<close>. A Python dict keeps insertion order, so it is an association list
  here: \<open>map_of\<close> looks a key up, \<open>AList.update\<close> is \<^verbatim>\<open>d[k] = v\<close> (a new key goes
  to the back, an old key keeps its place), \<open>AList.delete\<close> is \<^verbatim>\<open>d.pop(k)\<close>.
\<close>

type_synonym 'v Instance = "(string \<times> 'v) list"

text \<open>
  Modelled from the spec: \<^verbatim>\<open>FieldArray\<close> (field.py is not among the sources). A column
  is "one named, ordered sequence of values"; the code uses its \<^verbatim>\<open>content\<close> list, its
  length, \<^verbatim>\<open>append\<close>, \<^verbatim>\<open>pop\<close> and indexing, which are those of the list. The column
  is its content here, and its name is its key in \<^verbatim>\<open>field_arrays\<close>.

  \<^verbatim>\<open>DataSet\<close> (dataset.py, lines 106-118): the attribute \<^verbatim>\<open>field_arrays\<close>. The
  collator attribute is outside the modelled operations.
\<close>

record 'v DataSet =
  field_arrays :: "(string \<times> 'v list) list"

text \<open>\<^verbatim>\<open>DataSet.__len__\<close> (lines 216-224): 0 without fields, else the length of the
  first column.\<close>

definition len :: "'v DataSet \<Rightarrow> nat" where
  "len ds = (case field_arrays ds of [] \<Rightarrow> 0 | (name, content) # rest \<Rightarrow> length content)"

text \<open>The data-model invariant of the column store: every column has the length of the
  dataset. \<open>unique_names\<close> says that the association list is a dict.\<close>

definition same_length :: "'v DataSet \<Rightarrow> bool" where
  "same_length ds = list_all (\<lambda>(name, content). length content = len ds) (field_arrays ds)"

definition unique_names :: "'v DataSet \<Rightarrow> bool" where
  "unique_names ds = distinct (map fst (field_arrays ds))"

subsection \<open>Python list primitives\<close>

text \<open>\<^verbatim>\<open>xs[i]\<close>, \<^verbatim>\<open>xs.pop(i)\<close> and \<^verbatim>\<open>xs[start:stop]\<close>: a negative index counts from
  the back, an index out of range raises in the first two and is clamped in a slice.\<close>

definition py_index :: "'a list \<Rightarrow> int \<Rightarrow> error + 'a" where
  "py_index xs i =
     (let n = int (length xs); j = (if i < 0 then i + n else i)
      in if 0 \<le> j \<and> j < n then Inr (xs ! nat j) else Inl IndexError)"

definition py_pop :: "'a list \<Rightarrow> int \<Rightarrow> error + 'a list" where
  "py_pop xs i =
     (let n = int (length xs); j = (if i < 0 then i + n else i)
      in if 0 \<le> j \<and> j < n then Inr (take (nat j) xs @ drop (Suc (nat j)) xs)
         else Inl IndexError)"

definition slice_bound :: "nat \<Rightarrow> int \<Rightarrow> int" where
  "slice_bound n s = (if s < 0 then max (s + int n) 0 else min s (int n))"

definition py_slice :: "'a list \<Rightarrow> int option \<Rightarrow> int option \<Rightarrow> 'a list" where
  "py_slice xs start stop =
     (let lo = (case start of None \<Rightarrow> 0 | Some s \<Rightarrow> slice_bound (length xs) s);
          hi = (case stop of None \<Rightarrow> int (length xs) | Some s \<Rightarrow> slice_bound (length xs) s)
      in take (nat (hi - lo)) (drop (nat lo) xs))"

subsection \<open>Column-store primitives\<close>

text \<open>
  A mutating method returns its outcome and the dataset as it is afterwards: an
  exception raised half-way leaves what was already written.

  \<^verbatim>\<open>add_field\<close> (lines 270-282) and \<^verbatim>\<open>add_fieldarray\<close> (lines 254-268).
\<close>

definition add_field ::
  "string \<Rightarrow> 'v list \<Rightarrow> 'v DataSet \<Rightarrow> (error + unit) \<times> 'v DataSet" where
  "add_field field_name col ds =
     (if length (field_arrays ds) \<noteq> 0 \<and> len ds \<noteq> length col then (Inl RuntimeError, ds)
      else (Inr (), ds\<lparr>field_arrays := AList.update field_name col (field_arrays ds)\<rparr>))"

definition add_fieldarray ::
  "string \<Rightarrow> 'v list \<Rightarrow> 'v DataSet \<Rightarrow> (error + unit) \<times> 'v DataSet" where
  "add_fieldarray field_name fieldarray ds =
     (if len ds \<noteq> length fieldarray then (Inl RuntimeError, ds)
      else (Inr (), ds\<lparr>field_arrays := AList.update field_name fieldarray (field_arrays ds)\<rparr>))"

text \<open>\<^verbatim>\<open>has_field\<close> (lines 327-336), \<^verbatim>\<open>delete_field\<close> (lines 300-310) and
  \<^verbatim>\<open>rename_field\<close> (lines 373-385).\<close>

definition has_field :: "'v DataSet \<Rightarrow> string \<Rightarrow> bool" where
  "has_field ds field_name = (field_name \<in> set (map fst (field_arrays ds)))"

definition delete_field :: "string \<Rightarrow> 'v DataSet \<Rightarrow> (error + unit) \<times> 'v DataSet" where
  "delete_field field_name ds =
     (if has_field ds field_name
      then (Inr (), ds\<lparr>field_arrays := AList.delete field_name (field_arrays ds)\<rparr>)
      else (Inl (KeyError field_name), ds))"

definition rename_field ::
  "string \<Rightarrow> string \<Rightarrow> 'v DataSet \<Rightarrow> (error + unit) \<times> 'v DataSet" where
  "rename_field field_name new_field_name ds =
     (case map_of (field_arrays ds) field_name of
        None \<Rightarrow> (Inl (KeyError field_name), ds)
      | Some content \<Rightarrow>
          (Inr (), ds\<lparr>field_arrays :=
             AList.update new_field_name content (AList.delete field_name (field_arrays ds))\<rparr>))"

text \<open>
  \<^verbatim>\<open>DataSet.append\<close> (lines 229-252). Without fields every item of the instance seeds
  a one-element column. Otherwise the number of fields is compared first, and then
  the loop asserts and appends item by item:
  \<^verbatim>\<open>
    for name, field in instance.items():
        assert name in self.field_arrays
        try:
            self.field_arrays[name].append(field)
  \<close>
\<close>

fun append_first :: "'v Instance \<Rightarrow> (string \<times> 'v list) list \<Rightarrow> (string \<times> 'v list) list" where
  "append_first [] fa = fa"
| "append_first ((name, field) # rest) fa = append_first rest (AList.update name [field] fa)"

fun append_loop ::
  "'v Instance \<Rightarrow> (string \<times> 'v list) list \<Rightarrow> (error + unit) \<times> (string \<times> 'v list) list" where
  "append_loop [] fa = (Inr (), fa)"
| "append_loop ((name, field) # rest) fa =
     (case map_of fa name of
        None \<Rightarrow> (Inl AssertionError, fa)
      | Some content \<Rightarrow> append_loop rest (AList.update name (content @ [field]) fa))"

definition append_ds :: "'v Instance \<Rightarrow> 'v DataSet \<Rightarrow> (error + unit) \<times> 'v DataSet" where
  "append_ds instance ds =
     (if length (field_arrays ds) = 0
      then (Inr (), ds\<lparr>field_arrays := append_first instance (field_arrays ds)\<rparr>)
      else if length (field_arrays ds) \<noteq> length instance then (Inl ValueError, ds)
      else (case append_loop instance (field_arrays ds) of
              (r, fa) \<Rightarrow> (r, ds\<lparr>field_arrays := fa\<rparr>)))"

text \<open>
  \<^verbatim>\<open>DataSet.delete_instance\<close> (lines 284-298):
  \<^verbatim>\<open>
    if len(self) <= index:
        raise IndexError(...)
    if len(self) == 1:
        self.field_arrays.clear()
    else:
        for field in self.field_arrays.values():
            field.pop(index)
  \<close>
\<close>

fun pop_fields ::
  "(string \<times> 'v list) list \<Rightarrow> int \<Rightarrow> (error + unit) \<times> (string \<times> 'v list) list" where
  "pop_fields [] index = (Inr (), [])"
| "pop_fields ((name, content) # rest) index =
     (case py_pop content index of
        Inl e \<Rightarrow> (Inl e, (name, content) # rest)
      | Inr content' \<Rightarrow>
          (case pop_fields rest index of (r, rest') \<Rightarrow> (r, (name, content') # rest')))"

definition delete_instance :: "int \<Rightarrow> 'v DataSet \<Rightarrow> (error + unit) \<times> 'v DataSet" where
  "delete_instance index ds =
     (if int (len ds) \<le> index then (Inl IndexError, ds)
      else if len ds = 1 then (Inr (), ds\<lparr>field_arrays := []\<rparr>)
      else (case pop_fields (field_arrays ds) index of
              (r, fa) \<Rightarrow> (r, ds\<lparr>field_arrays := fa\<rparr>)))"

text \<open>
  \<^verbatim>\<open>DataSet.__getitem__\<close> (lines 170-198), for an integer and for a slice. The row of
  an integer index reads every column at that index. The slice checks its start and
  fills a new dataset with \<^verbatim>\<open>add_field\<close>, column by column; the new dataset is local
  to the call, so a failure leaves nothing behind.
\<close>

fun getitem_fields :: "(string \<times> 'v list) list \<Rightarrow> int \<Rightarrow> error + 'v Instance" where
  "getitem_fields [] idx = Inr []"
| "getitem_fields ((name, content) # rest) idx =
     (case py_index content idx of
        Inl e \<Rightarrow> Inl e
      | Inr v \<Rightarrow>
          (case getitem_fields rest idx of
             Inl e \<Rightarrow> Inl e
           | Inr ins \<Rightarrow> Inr ((name, v) # ins)))"

definition getitem_int :: "'v DataSet \<Rightarrow> int \<Rightarrow> error + 'v Instance" where
  "getitem_int ds idx = getitem_fields (field_arrays ds) idx"

fun add_fields :: "(string \<times> 'v list) list \<Rightarrow> 'v DataSet \<Rightarrow> error + 'v DataSet" where
  "add_fields [] data_set = Inr data_set"
| "add_fields ((field_name, col) # rest) data_set =
     (case add_field field_name col data_set of
        (Inl e, data_set') \<Rightarrow> Inl e
      | (Inr u, data_set') \<Rightarrow> add_fields rest data_set')"

definition getitem_slice ::
  "'v DataSet \<Rightarrow> int option \<Rightarrow> int option \<Rightarrow> error + 'v DataSet" where
  "getitem_slice ds start stop =
     (if (case start of None \<Rightarrow> False
          | Some s \<Rightarrow> s \<ge> int (len ds) \<or> s \<le> - int (len ds))
      then Inl RuntimeError
      else add_fields (map (\<lambda>(field_name, field). (field_name, py_slice field start stop))
                        (field_arrays ds))
             \<lparr>field_arrays = []\<rparr>)"

text \<open>
  \<^verbatim>\<open>DataSet.concat\<close> (lines 689-724). \<open>field_mapping\<close> maps a field name of the other
  dataset to a name of this one; \<open>reverse_field_mapping\<close> is the dict comprehension
  \<^verbatim>\<open>{v: k for k, v in field_mapping.items()}\<close>, where a later item wins. The loop
  runs over a Python set, whose order is not fixed; it is taken in the order of the
  fields here, which decides only what was already extended when a lookup fails.
  With \<open>inplace\<close> false the work is done on a copy and this dataset stays as it was.
  The result is the outcome (the dataset returned) and this dataset afterwards.
\<close>

definition mapped_name :: "(string \<times> string) list \<Rightarrow> string \<Rightarrow> string" where
  "mapped_name field_mapping fn = (case map_of field_mapping fn of None \<Rightarrow> fn | Some v \<Rightarrow> v)"

definition reverse_mapping :: "(string \<times> string) list \<Rightarrow> (string \<times> string) list" where
  "reverse_mapping field_mapping = rev (map (\<lambda>(k, v). (v, k)) field_mapping)"

fun concat_loop ::
  "string list \<Rightarrow> (string \<times> string) list \<Rightarrow> 'v DataSet \<Rightarrow> (string \<times> 'v list) list \<Rightarrow>
   (error + unit) \<times> (string \<times> 'v list) list" where
  "concat_loop [] reverse_field_mapping dataset fa = (Inr (), fa)"
| "concat_loop (fn # rest) reverse_field_mapping dataset fa =
     (case map_of fa fn of
        None \<Rightarrow> (Inl (KeyError fn), fa)
      | Some content \<Rightarrow>
          (case map_of (field_arrays dataset) (mapped_name reverse_field_mapping fn) of
             None \<Rightarrow> (Inl (KeyError (mapped_name reverse_field_mapping fn)), fa)
           | Some other \<Rightarrow>
               concat_loop rest reverse_field_mapping dataset
                 (AList.update fn (content @ other) fa)))"

definition concat_ds ::
  "'v DataSet \<Rightarrow> bool \<Rightarrow> (string \<times> string) list option \<Rightarrow> 'v DataSet \<Rightarrow>
   (error + 'v DataSet) \<times> 'v DataSet" where
  "concat_ds dataset inplace field_mapping ds =
     (let fns_in_this_dataset = map fst (field_arrays ds);
          fns_in_other_dataset =
            (case field_mapping of
               None \<Rightarrow> map fst (field_arrays dataset)
             | Some fm \<Rightarrow> map (mapped_name fm) (map fst (field_arrays dataset)));
          reverse_field_mapping =
            (case field_mapping of None \<Rightarrow> [] | Some fm \<Rightarrow> reverse_mapping fm)
      in if set fns_in_this_dataset - set fns_in_other_dataset \<noteq> {}
         then (Inl RuntimeError, ds)
         else (case concat_loop fns_in_this_dataset reverse_field_mapping dataset
                      (field_arrays ds) of
                 (Inl e, fa) \<Rightarrow> (Inl e, if inplace then ds\<lparr>field_arrays := fa\<rparr> else ds)
               | (Inr u, fa) \<Rightarrow>
                   (Inr (ds\<lparr>field_arrays := fa\<rparr>),
                    if inplace then ds\<lparr>field_arrays := fa\<rparr> else ds)))"


section \<open>The shard plan of the multi-process apply path\<close>

text \<open>
  \<^verbatim>\<open>DataSet._apply_process\<close> (dataset.py, lines 490-498) cuts the row range of a
  dataset of \<open>n\<close> rows into \<open>num_proc\<close> half-open ranges:
  \<^verbatim>\<open>
    shard_len = len(self) // num_proc
    num_left_sample = len(self) % num_proc
    start = 0
    shard_data = []
    for _i in range(num_proc):
        end = shard_len + int(_i<num_left_sample) + start
        shard_data.append(self[start:end])
        start = end
  \<close>
  \<open>shard_loop\<close> is the loop, run over the values of \<open>_i\<close>; it yields the bounds
  \<open>(start, end)\<close> of every slice in the order of the appends. Row counts and the
  worker count are natural numbers here, on which Python's \<open>//\<close> and \<open>%\<close> are
  \<open>div\<close> and \<open>mod\<close>; the division by a worker count of zero is a branch of
  \<open>apply_process\<close> below.
\<close>

fun shard_loop :: "nat \<Rightarrow> nat \<Rightarrow> nat \<Rightarrow> nat list \<Rightarrow> (nat \<times> nat) list" where
  "shard_loop shard_len num_left_sample start [] = []"
| "shard_loop shard_len num_left_sample start (i # rest) =
     (let stop = shard_len + (if i < num_left_sample then 1 else 0) + start
      in (start, stop) # shard_loop shard_len num_left_sample stop rest)"

definition shard_bounds :: "nat \<Rightarrow> nat \<Rightarrow> (nat \<times> nat) list" where
  "shard_bounds n num_proc =
     shard_loop (n div num_proc) (n mod num_proc) 0 [0..<num_proc]"

text \<open>The closed form of the \<open>i\<close>-th boundary: \<open>i\<close> full shards and one extra row
  for each of the first \<open>n mod k\<close> shards.\<close>

definition shard_start :: "nat \<Rightarrow> nat \<Rightarrow> nat \<Rightarrow> nat" where
  "shard_start n k i = i * (n div k) + min i (n mod k)"


section \<open>The worker task and the progress monitor\<close>

text \<open>
  What the code does beyond computing values is written to a trace, in the order of
  the calls: the progress display (\<^verbatim>\<open>f_rich_progress.add_task\<close>, \<^verbatim>\<open>update\<close>,
  \<^verbatim>\<open>destroy_task\<close>), an application of the user function to the row of an index,
  \<^verbatim>\<open>pipe.send([idx + 1])\<close>, the prints, and the creation of the pipe, of the monitor
  thread and of the process pool.
\<close>

datatype event =
    AddTask nat
  | Advance
  | DestroyTask
  | Call int
  | Send int
  | PrintAt int
  | PrintMsg
  | PrintReduce nat
  | MkPipe
  | StartThread
  | MkPool nat
  | Submit nat
  | PoolClose
  | PoolJoin
  | ThreadJoin

fun sent :: "event \<Rightarrow> int list" where
  "sent (Send m) = [m]"
| "sent ev = []"

definition sends :: "event list \<Rightarrow> int list" where
  "sends tr = concat (map sent tr)"

fun called :: "event \<Rightarrow> int list" where
  "called (Call i) = [i]"
| "called ev = []"

definition calls :: "event list \<Rightarrow> int list" where
  "calls tr = concat (map called tr)"

fun printed :: "event \<Rightarrow> int list" where
  "printed (PrintAt i) = [i]"
| "printed ev = []"

definition prints :: "event list \<Rightarrow> int list" where
  "prints tr = concat (map printed tr)"

text \<open>The events of a run in the invoking process without a channel.\<close>

fun local_event :: "event \<Rightarrow> bool" where
  "local_event (AddTask n) = True"
| "local_event Advance = True"
| "local_event DestroyTask = True"
| "local_event (Call i) = True"
| "local_event (PrintAt i) = True"
| "local_event ev = False"

text \<open>The user function gets the whole row, or the value of one field of it
  (\<^verbatim>\<open>func(ins[_apply_field])\<close>).\<close>

datatype 'v func_arg = Row "'v Instance" | Val 'v

definition pick_arg :: "string option \<Rightarrow> 'v Instance \<Rightarrow> error + 'v func_arg" where
  "pick_arg apply_field ins =
     (case apply_field of
        None \<Rightarrow> Inr (Row ins)
      | Some name \<Rightarrow>
          (case map_of ins name of None \<Rightarrow> Inl (KeyError name) | Some v \<Rightarrow> Inr (Val v)))"

text \<open>
  \<^verbatim>\<open>_apply_single\<close> (lines 39-77):
  \<^verbatim>\<open>
    results = []
    idx = -1
    try:
        for idx, ins in enumerate(ds):
            if _apply_field is not None:
                results.append(func(ins[_apply_field]))
            else:
                results.append(func(ins))
            if pipe is not None:
                pipe.send([idx + 1])
            if show_progress_bar:
                f_rich_progress.update(pg_main, advance=1)
    except BaseException as e:
        if idx != -1:
            print("Exception happens at the `{}`th instance.".format(idx))
        raise e
    finally:
        if show_progress_bar:
            f_rich_progress.destroy_task(pg_main)
    return results
  \<close>
  \<open>single_loop\<close> is the \<^verbatim>\<open>for\<close> loop over the indices \<^verbatim>\<open>DataSet.__iter__\<close> yields
  rows for (\<^verbatim>\<open>range(len(self))\<close>); it returns the trace, the value of \<open>idx\<close> when
  the loop is left, and the results or the exception. A row that cannot be read
  raises before \<open>idx\<close> is assigned. \<open>pipe\<close> says whether a pipe was given. The
  description of the progress bar is a display string and is left out.
\<close>

fun single_loop ::
  "'v DataSet \<Rightarrow> string option \<Rightarrow> ('v func_arg \<Rightarrow> error + 'r) \<Rightarrow> bool \<Rightarrow> bool \<Rightarrow>
   nat list \<Rightarrow> int \<Rightarrow> 'r list \<Rightarrow> event list \<times> int \<times> (error + 'r list)" where
  "single_loop ds apply_field func show_bar pipe [] idx results = ([], idx, Inr results)"
| "single_loop ds apply_field func show_bar pipe (i # rest) idx results =
     (case getitem_int ds (int i) of
        Inl e \<Rightarrow> ([], idx, Inl e)
      | Inr ins \<Rightarrow>
          (case pick_arg apply_field ins of
             Inl e \<Rightarrow> ([], int i, Inl e)
           | Inr arg \<Rightarrow>
               (case func arg of
                  Inl e \<Rightarrow> ([Call (int i)], int i, Inl e)
                | Inr r \<Rightarrow>
                    (case single_loop ds apply_field func show_bar pipe rest (int i)
                            (results @ [r]) of
                       (tr, idx', out) \<Rightarrow>
                         (Call (int i) # (if pipe then [Send (int i + 1)] else []) @
                            (if show_bar then [Advance] else []) @ tr,
                          idx', out)))))"

definition apply_single ::
  "'v DataSet \<Rightarrow> string option \<Rightarrow> ('v func_arg \<Rightarrow> error + 'r) \<Rightarrow> bool \<Rightarrow> bool \<Rightarrow>
   event list \<times> (error + 'r list)" where
  "apply_single ds apply_field func show_bar pipe =
     (case single_loop ds apply_field func show_bar pipe [0..<len ds] (- 1) [] of
        (tr, idx, out) \<Rightarrow>
          ((if show_bar then [AddTask (len ds)] else []) @ tr @
           (case out of
              Inl e \<Rightarrow> (if idx \<noteq> - 1 then [PrintAt idx] else [])
            | Inr rs \<Rightarrow> []) @
           (if show_bar then [DestroyTask] else []),
           out))"

text \<open>
  \<^verbatim>\<open>_progress_bar\<close> (lines 80-103):
  \<^verbatim>\<open>
    nums = 0
    while True:
        msg = parent.recv()[0]
        if msg is not None:
            f_rich_progress.update(main_pro, advance=1)
            nums += 1
        if nums == total_len:
            break
  \<close>
  The receiving end is the list of the messages that arrive, in the order of their
  arrival; a message is what \<^verbatim>\<open>recv()[0]\<close> reads, and \<open>None\<close> is Python's. When all
  messages are read and the loop has not left, \<^verbatim>\<open>recv\<close> waits for ever: the monitor
  is \<open>Blocked\<close> with the counter it has reached, and does not return. \<open>Finished\<close>
  is the return, with the counter and the messages not read.
\<close>

datatype monitor = Finished nat "int option list" | Blocked nat

fun progress_loop :: "nat \<Rightarrow> nat \<Rightarrow> int option list \<Rightarrow> monitor" where
  "progress_loop total_len nums [] = Blocked nums"
| "progress_loop total_len nums (msg # parent) =
     (let nums' = (if msg \<noteq> None then nums + 1 else nums)
      in if nums' = total_len then Finished nums' parent
         else progress_loop total_len nums' parent)"

definition progress_bar :: "int option list \<Rightarrow> nat \<Rightarrow> monitor" where
  "progress_bar parent total_len = progress_loop total_len 0 parent"

text \<open>
  The workers send through one pipe, so what arrives is an interleaving of what each
  worker sends: every message is the next one of some worker.
\<close>

inductive interleaving :: "'a list list \<Rightarrow> 'a list \<Rightarrow> bool" where
  drained: "list_all (\<lambda>q. q = []) qs \<Longrightarrow> interleaving qs []"
| arrives: "i < length qs \<Longrightarrow> qs ! i = m # q \<Longrightarrow> interleaving (qs[i := q]) ms \<Longrightarrow>
            interleaving qs (m # ms)"

section \<open>The apply engine\<close>

text \<open>
  A call with keyword arguments raises \<^verbatim>\<open>TypeError\<close> when a keyword is not a
  parameter of the function. \<^verbatim>\<open>_apply_single\<close> has the parameters of line 39-40 and
  no \<^verbatim>\<open>**kwargs\<close>. The multi-process path calls it through
  \<^verbatim>\<open>
    partial_single_map = partial(_apply_single, _apply_field=_apply_field, func=func,
                                 pipe=child, show_progress_bar=False)
    pool_outs = [pool.apply_async(partial_single_map, kwds={'ds': ds, "proc_id": proc_id})
                 for proc_id, ds in enumerate(shard_data)]
  \<close>
  so with the keywords of \<open>worker_kwds\<close>.
\<close>

definition apply_single_params :: "string list" where
  "apply_single_params =
     [''ds'', ''_apply_field'', ''func'', ''show_progress_bar'', ''pipe'', ''desc'']"

definition worker_kwds :: "string list" where
  "worker_kwds =
     [''_apply_field'', ''func'', ''pipe'', ''show_progress_bar'', ''ds'', ''proc_id'']"

definition call_apply_single ::
  "string list \<Rightarrow> 'v DataSet \<Rightarrow> string option \<Rightarrow> ('v func_arg \<Rightarrow> error + 'r) \<Rightarrow> bool \<Rightarrow>
   bool \<Rightarrow> event list \<times> (error + 'r list)" where
  "call_apply_single kwds ds apply_field func show_bar pipe =
     (if list_all (\<lambda>k. k \<in> set apply_single_params) kwds
      then apply_single ds apply_field func show_bar pipe
      else ([], Inl TypeError))"

text \<open>The slices of the shard plan, \<^verbatim>\<open>self[start:end]\<close>, in the order of the plan;
  the first slice that raises ends the call.\<close>

fun slice_shards :: "'v DataSet \<Rightarrow> (nat \<times> nat) list \<Rightarrow> error + 'v DataSet list" where
  "slice_shards ds [] = Inr []"
| "slice_shards ds ((start, stop) # rest) =
     (case getitem_slice ds (Some (int start)) (Some (int stop)) of
        Inl e \<Rightarrow> Inl e
      | Inr shard \<Rightarrow>
          (case slice_shards ds rest of
             Inl e \<Rightarrow> Inl e
           | Inr shards \<Rightarrow> Inr (shard # shards)))"

text \<open>\<^verbatim>\<open>for async_result in pool_outs: data = async_result.get(); results.extend(data)\<close>:
  \<^verbatim>\<open>get\<close> raises what the worker raised.\<close>

fun collect :: "(error + 'r list) list \<Rightarrow> error + 'r list" where
  "collect [] = Inr []"
| "collect (out # outs) =
     (case out of
        Inl e \<Rightarrow> Inl e
      | Inr data \<Rightarrow> (case collect outs of Inl e \<Rightarrow> Inl e | Inr rs \<Rightarrow> Inr (data @ rs)))"

text \<open>
  \<^verbatim>\<open>DataSet._apply_process\<close> (lines 468-517). The result is the trace of the invoking
  thread and the outcome; the outcome \<open>None\<close> is a call that does not return, which
  is \<^verbatim>\<open>main_thread.join()\<close> on a monitor that is blocked. The worker count is a
  natural number (\<^verbatim>\<open>apply\<close> and \<^verbatim>\<open>apply_more\<close> assert \<^verbatim>\<open>num_proc >= 0\<close>); a count
  reduced to 0 divides by zero. The workers run in processes of their own, so their
  traces are not part of the trace of the invoking thread; what they send arrives at
  the monitor, here worker after worker (\<open>monitor_any_order\<close> below: the order of
  arrival does not change what the monitor does).
\<close>

definition apply_process ::
  "'v DataSet \<Rightarrow> nat \<Rightarrow> ('v func_arg \<Rightarrow> error + 'r) \<Rightarrow> bool \<Rightarrow> string option \<Rightarrow>
   event list \<times> (error + 'r list) option" where
  "apply_process ds num_proc func show_bar apply_field =
     (if num_proc = 0 then
        (case apply_single ds apply_field func show_bar False of (tr, out) \<Rightarrow> (tr, Some out))
      else
        (let reduce = (num_proc > len ds);
             num_proc' = (if reduce then len ds else num_proc);
             tr0 = (if reduce then [PrintReduce (len ds)] else [])
         in if num_proc' = 0 then (tr0, Some (Inl ZeroDivisionError))
            else
              (case slice_shards ds (shard_bounds (len ds) num_proc') of
                 Inl e \<Rightarrow> (tr0, Some (Inl e))
               | Inr shard_data \<Rightarrow>
                   (let runs = map (\<lambda>shard. call_apply_single worker_kwds shard apply_field
                                               func False True) shard_data;
                        tr1 = tr0 @ [MkPipe, StartThread, MkPool num_proc'] @
                              map Submit [0..<length shard_data] @ [PoolClose, PoolJoin]
                    in (case progress_bar (map Some (concat (map (\<lambda>run. sends (fst run)) runs)))
                               (len ds) of
                          Blocked nums \<Rightarrow> (tr1, None)
                        | Finished nums unread \<Rightarrow>
                            (tr1 @ [ThreadJoin], Some (collect (map snd runs))))))))"

text \<open>
  \<^verbatim>\<open>DataSet.apply\<close> (lines 576-599) and \<^verbatim>\<open>DataSet.apply_field\<close> (lines 387-413): the
  trace, the outcome (\<open>None\<close>: the call does not return) and the dataset afterwards.
  \<^verbatim>\<open>callable(func)\<close> holds of every function here.
\<close>

definition apply_ds ::
  "('v func_arg \<Rightarrow> error + 'v) \<Rightarrow> string option \<Rightarrow> nat \<Rightarrow> bool \<Rightarrow> 'v DataSet \<Rightarrow>
   event list \<times> (error + 'v list) option \<times> 'v DataSet" where
  "apply_ds func new_field_name num_proc show_bar ds =
     (if len ds = 0 then ([], Some (Inl AssertionError), ds)
      else
        (case apply_process ds num_proc func show_bar None of
           (tr, None) \<Rightarrow> (tr, None, ds)
         | (tr, Some (Inl e)) \<Rightarrow> (tr, Some (Inl e), ds)
         | (tr, Some (Inr results)) \<Rightarrow>
             (case new_field_name of
                None \<Rightarrow> (tr, Some (Inr results), ds)
              | Some name \<Rightarrow>
                  (case add_field name results ds of
                     (Inl e, ds') \<Rightarrow> (tr, Some (Inl e), ds')
                   | (Inr u, ds') \<Rightarrow> (tr, Some (Inr results), ds')))))"

definition apply_field ::
  "('v func_arg \<Rightarrow> error + 'v) \<Rightarrow> string \<Rightarrow> string option \<Rightarrow> nat \<Rightarrow> bool \<Rightarrow> 'v DataSet \<Rightarrow>
   event list \<times> (error + 'v list) option \<times> 'v DataSet" where
  "apply_field func field_name new_field_name num_proc show_bar ds =
     (if len ds = 0 then ([], Some (Inl AssertionError), ds)
      else if \<not> has_field ds field_name then ([], Some (Inl (KeyError field_name)), ds)
      else
        (case apply_process ds num_proc func show_bar (Some field_name) of
           (tr, None) \<Rightarrow> (tr, None, ds)
         | (tr, Some (Inl e)) \<Rightarrow> (tr, Some (Inl e), ds)
         | (tr, Some (Inr results)) \<Rightarrow>
             (case new_field_name of
                None \<Rightarrow> (tr, Some (Inr results), ds)
              | Some name \<Rightarrow>
                  (case add_field name results ds of
                     (Inl e, ds') \<Rightarrow> (tr, Some (Inl e), ds')
                   | (Inr u, ds') \<Rightarrow> (tr, Some (Inr results), ds')))))"

section \<open>The result merger\<close>

text \<open>
  What the user function of \<^verbatim>\<open>apply_more\<close> returns for a row: a dict, or a value
  that is no dict (it has no \<^verbatim>\<open>keys\<close>).
\<close>

datatype 'v result = Dict "(string \<times> 'v) list" | NonDict 'v

text \<open>
  The merge of \<^verbatim>\<open>apply_more\<close> (lines 549-568) and of \<^verbatim>\<open>apply_field_more\<close>
  (lines 441-460), which are the same text:
  \<^verbatim>\<open>
    if not isinstance(apply_out[0], dict):
        raise Exception("The result of func is not a dict")
    for key, value in apply_out[0].items():
        results[key] = [value]
    try:
        for idx, per_out in enumerate(apply_out[1:]):
            if len(set(results.keys()) - set(per_out.keys())):
                raise ApplyResultException("apply results have different fields", idx + 1)
            for key, value in per_out.items():
                results[key].append(value)
    except Exception as e:
        if idx != -1:
            if isinstance(e, ApplyResultException):
                print(e.msg)
            print("Exception happens at the `{}`th instance.".format(idx + 1))
        raise e
  \<close>
  \<open>merge_row\<close> is the inner loop; \<open>merge_loop\<close> is the outer loop from the value
  \<open>idx\<close> of \<^verbatim>\<open>enumerate\<close> on, and returns the merged columns, or \<open>idx\<close>, the
  exception and the columns as they are when it is raised.
\<close>

fun seed_results :: "(string \<times> 'v) list \<Rightarrow> (string \<times> 'v list) list \<Rightarrow> (string \<times> 'v list) list" where
  "seed_results [] results = results"
| "seed_results ((key, v) # rest) results = seed_results rest (AList.update key [v] results)"

fun merge_row ::
  "(string \<times> 'v) list \<Rightarrow> (string \<times> 'v list) list \<Rightarrow>
   (error + unit) \<times> (string \<times> 'v list) list" where
  "merge_row [] results = (Inr (), results)"
| "merge_row ((key, v) # rest) results =
     (case map_of results key of
        None \<Rightarrow> (Inl (KeyError key), results)
      | Some column \<Rightarrow> merge_row rest (AList.update key (column @ [v]) results))"

fun merge_loop ::
  "'v result list \<Rightarrow> int \<Rightarrow> (string \<times> 'v list) list \<Rightarrow>
   (int \<times> error \<times> (string \<times> 'v list) list) + (string \<times> 'v list) list" where
  "merge_loop [] idx results = Inr results"
| "merge_loop (per_out # rest) idx results =
     (case per_out of
        NonDict x \<Rightarrow> Inl (idx, AttributeError, results)
      | Dict d \<Rightarrow>
          if set (map fst results) - set (map fst d) \<noteq> {}
          then Inl (idx, ApplyResultException (idx + 1), results)
          else (case merge_row d results of
                  (Inl e, results') \<Rightarrow> Inl (idx, e, results')
                | (Inr u, results') \<Rightarrow> merge_loop rest (idx + 1) results'))"

definition merge ::
  "'v result list \<Rightarrow> event list \<times> (error + (string \<times> 'v list) list)" where
  "merge apply_out =
     (case apply_out of
        [] \<Rightarrow> ([], Inl IndexError)
      | NonDict x # rest \<Rightarrow> ([], Inl NotADict)
      | Dict d # rest \<Rightarrow>
          (case merge_loop rest 0 (seed_results d []) of
             Inl (idx, e, partial) \<Rightarrow>
               (if idx \<noteq> - 1
                then (case e of ApplyResultException i \<Rightarrow> [PrintMsg] | _ \<Rightarrow> []) @
                     [PrintAt (idx + 1)]
                else [],
                Inl e)
           | Inr results \<Rightarrow> ([], Inr results)))"

text \<open>The write-back (lines 570-572 and 462-464):
  \<^verbatim>\<open>for field, result in results.items(): self.add_field(field_name=field, fields=result)\<close>.\<close>

fun write_back ::
  "(string \<times> 'v list) list \<Rightarrow> 'v DataSet \<Rightarrow> (error + unit) \<times> 'v DataSet" where
  "write_back [] ds = (Inr (), ds)"
| "write_back ((field, res) # rest) ds =
     (case add_field field res ds of
        (Inl e, ds') \<Rightarrow> (Inl e, ds')
      | (Inr u, ds') \<Rightarrow> write_back rest ds')"

definition merge_and_write ::
  "event list \<times> (error + 'v result list) option \<Rightarrow> bool \<Rightarrow> 'v DataSet \<Rightarrow>
   event list \<times> (error + (string \<times> 'v list) list) option \<times> 'v DataSet" where
  "merge_and_write run modify_fields ds =
     (case run of
        (tr, None) \<Rightarrow> (tr, None, ds)
      | (tr, Some (Inl e)) \<Rightarrow> (tr, Some (Inl e), ds)
      | (tr, Some (Inr apply_out)) \<Rightarrow>
          (case merge apply_out of
             (tr', Inl e) \<Rightarrow> (tr @ tr', Some (Inl e), ds)
           | (tr', Inr results) \<Rightarrow>
               if modify_fields
               then (case write_back results ds of
                       (Inl e, ds') \<Rightarrow> (tr @ tr', Some (Inl e), ds')
                     | (Inr u, ds') \<Rightarrow> (tr @ tr', Some (Inr results), ds'))
               else (tr @ tr', Some (Inr results), ds)))"

text \<open>\<^verbatim>\<open>DataSet.apply_more\<close> (lines 519-574) and \<^verbatim>\<open>DataSet.apply_field_more\<close>
  (lines 415-466).\<close>

definition apply_more ::
  "('v func_arg \<Rightarrow> error + 'v result) \<Rightarrow> bool \<Rightarrow> nat \<Rightarrow> bool \<Rightarrow> 'v DataSet \<Rightarrow>
   event list \<times> (error + (string \<times> 'v list) list) option \<times> 'v DataSet" where
  "apply_more func modify_fields num_proc show_bar ds =
     (if len ds = 0 then ([], Some (Inl AssertionError), ds)
      else merge_and_write (apply_process ds num_proc func show_bar None) modify_fields ds)"

definition apply_field_more ::
  "('v func_arg \<Rightarrow> error + 'v result) \<Rightarrow> string \<Rightarrow> bool \<Rightarrow> nat \<Rightarrow> bool \<Rightarrow> 'v DataSet \<Rightarrow>
   event list \<times> (error + (string \<times> 'v list) list) option \<times> 'v DataSet" where
  "apply_field_more func field_name modify_fields num_proc show_bar ds =
     (if len ds = 0 then ([], Some (Inl AssertionError), ds)
      else if \<not> has_field ds field_name then ([], Some (Inl (KeyError field_name)), ds)
      else merge_and_write (apply_process ds num_proc func show_bar (Some field_name))
             modify_fields ds)"

section \<open>Properties of the shard plan\<close>

lemma shard_loop_upt:
  "shard_loop q r (j * q + min j r) [j..<j + m] =
     map (\<lambda>i. (i * q + min i r, Suc i * q + min (Suc i) r)) [j..<j + m]"
proof (induction m arbitrary: j)
  case 0
  then show ?case by simp
next
  case (Suc m)
  have step: "q + (if j < r then 1 else 0) + (j * q + min j r) = Suc j * q + min (Suc j) r"
    by (auto simp: min_def)
  have e: "[j..<j + Suc m] = j # [Suc j..<Suc j + m]"
    by (simp add: upt_conv_Cons)
  show ?case
    unfolding e shard_loop.simps Let_def step list.map
    using Suc.IH [of "Suc j"] by simp
qed

lemma shard_bounds_closed:
  "shard_bounds n k = map (\<lambda>i. (shard_start n k i, shard_start n k (Suc i))) [0..<k]"
  using shard_loop_upt [of "n div k" "n mod k" 0 k]
  by (simp add: shard_bounds_def shard_start_def)

lemma shard_start_last: "0 < k \<Longrightarrow> shard_start n k k = n"
proof -
  assume "0 < k"
  then have "n mod k < k" by simp
  then have "min k (n mod k) = n mod k" by simp
  then show ?thesis by (simp add: shard_start_def)
qed

lemma shard_start_mono: "shard_start n k i \<le> shard_start n k (Suc i)"
  by (simp add: shard_start_def min_def)

lemma shard_size:
  "shard_start n k (Suc i) - shard_start n k i = n div k + (if i < n mod k then 1 else 0)"
  by (simp add: shard_start_def min_def)

lemma concat_ranges:
  "(\<And>i. f i \<le> f (Suc i)) \<Longrightarrow>
   concat (map (\<lambda>i. [f i..<f (Suc i)]) [0..<k]) = [f 0..<f (k::nat)]"
proof (induction k)
  case 0 then show ?case by simp
next
  case (Suc k)
  have mono: "f 0 \<le> f k" 
    by (induction k) (auto intro: order_trans Suc.prems)
  have "[f 0..<f (Suc k)] = [f 0..<f k] @ [f k..<f (Suc k)]"
    using mono Suc.prems [of k] by (metis le_Suc_ex upt_add_eq_append)
  then show ?case using Suc by simp
qed

lemma ceil_div:
  assumes "0 < k" "0 < n mod k"
  shows "(n + k - 1) div k = n div k + (1::nat)"
proof -
  have e: "n = n div k * k + n mod k" by simp
  have "n + k - 1 = (n mod k - 1) + (n div k * k + k)"
    using e assms(2) by linarith
  also have "\<dots> = (n mod k - 1) + (n div k + 1) * k"
    by simp
  finally have "(n + k - 1) div k = ((n mod k - 1) + (n div k + 1) * k) div k"
    by simp
  also have "\<dots> = (n div k + 1) + (n mod k - 1) div k"
  proof -
    have "k \<noteq> 0" using assms(1) by simp
    then show ?thesis by (rule div_mult_self1)
  qed
  also have "(n mod k - 1) div k = 0"
    using assms by (simp add: less_imp_diff_less)
  finally show ?thesis by simp
qed

text \<open>
  C1. For a dataset of \<open>N\<close> rows and a worker count \<open>k\<close> with \<open>1 \<le> k \<le> N\<close>, the
  shard plan of the multi-process path has exactly \<open>k\<close> ranges; read in order they
  enumerate \<open>0, ..., N - 1\<close> once each (contiguous, ascending, non-overlapping); every
  range is non-empty and ends where the next one starts; the first \<open>N mod k\<close> ranges
  have \<open>\<lceil>N / k\<rceil>\<close> rows (written \<open>(N + k - 1) div k\<close>) and the others \<open>\<lfloor>N / k\<rfloor>\<close>; and
  7 rows for 3 workers are cut into \<open>[0,3)\<close>, \<open>[3,5)\<close>, \<open>[5,7)\<close>.
\<close>

theorem shard_plan_partition:
  assumes "1 \<le> k" and "k \<le> N"
  shows "length (shard_bounds N k) = k
     \<and> concat (map (\<lambda>(s, e). [s..<e]) (shard_bounds N k)) = [0..<N]
     \<and> (\<forall>i<k. fst (shard_bounds N k ! i) < snd (shard_bounds N k ! i)
            \<and> snd (shard_bounds N k ! i) - fst (shard_bounds N k ! i) =
                (if i < N mod k then (N + k - 1) div k else N div k)
            \<and> (Suc i < k \<longrightarrow> snd (shard_bounds N k ! i) = fst (shard_bounds N k ! Suc i)))
     \<and> fst (shard_bounds N k ! 0) = 0
     \<and> snd (shard_bounds N k ! (k - 1)) = N
     \<and> shard_bounds 7 3 = [(0, 3), (3, 5), (5, 7)]"
proof -
  have k: "0 < k" using assms by simp
  have "0 < N div k" using assms by (simp add: div_greater_zero_iff)
  then have q: "1 \<le> N div k" by simp
  have len: "length (shard_bounds N k) = k"
    by (simp add: shard_bounds_closed)
  have nth: "shard_bounds N k ! i = (shard_start N k i, shard_start N k (Suc i))" if "i < k" for i
    using that by (simp add: shard_bounds_closed)
  have "concat (map (\<lambda>(s, e). [s..<e]) (shard_bounds N k)) =
        concat (map (\<lambda>i. [shard_start N k i..<shard_start N k (Suc i)]) [0..<k])"
    by (simp add: shard_bounds_closed comp_def)
  also have "\<dots> = [shard_start N k 0..<shard_start N k k]"
    by (rule concat_ranges) (rule shard_start_mono)
  also have "\<dots> = [0..<N]"
    using k by (simp add: shard_start_last) (simp add: shard_start_def)
  finally have cover: "concat (map (\<lambda>(s, e). [s..<e]) (shard_bounds N k)) = [0..<N]" .
  have each: "fst (shard_bounds N k ! i) < snd (shard_bounds N k ! i)
            \<and> snd (shard_bounds N k ! i) - fst (shard_bounds N k ! i) =
                (if i < N mod k then (N + k - 1) div k else N div k)
            \<and> (Suc i < k \<longrightarrow> snd (shard_bounds N k ! i) = fst (shard_bounds N k ! Suc i))"
    if "i < k" for i
  proof -
    have sz: "shard_start N k (Suc i) - shard_start N k i =
        (if i < N mod k then (N + k - 1) div k else N div k)"
    proof (cases "i < N mod k")
      case True
      then have "0 < N mod k" by simp
      then have "(N + k - 1) div k = N div k + 1" using k by (rule ceil_div [rotated])
      then show ?thesis using True by (simp add: shard_size)
    next
      case False
      then show ?thesis by (simp add: shard_size)
    qed
    have pos: "shard_start N k i < shard_start N k (Suc i)"
      using q by (simp add: shard_start_def min_def)
    have a: "fst (shard_bounds N k ! i) = shard_start N k i"
      and b: "snd (shard_bounds N k ! i) = shard_start N k (Suc i)"
      using that by (simp_all add: nth)
    have c: "Suc i < k \<longrightarrow> snd (shard_bounds N k ! i) = fst (shard_bounds N k ! Suc i)"
      by (simp add: b nth)
    show ?thesis
      unfolding a b using pos sz c [unfolded b] by (intro conjI)
  qed
  have first: "fst (shard_bounds N k ! 0) = 0"
    using k by (simp add: nth shard_start_def)
  have last: "snd (shard_bounds N k ! (k - 1)) = N"
    using k by (simp add: nth shard_start_last)
  have ex: "shard_bounds 7 3 = [(0, 3), (3, 5), (5, 7)]"
    by code_simp
  from each have every: "\<forall>i<k. fst (shard_bounds N k ! i) < snd (shard_bounds N k ! i)
            \<and> snd (shard_bounds N k ! i) - fst (shard_bounds N k ! i) =
                (if i < N mod k then (N + k - 1) div k else N div k)
            \<and> (Suc i < k \<longrightarrow> snd (shard_bounds N k ! i) = fst (shard_bounds N k ! Suc i))"
    by blast
  show ?thesis
    by (rule conjI [OF len conjI [OF cover conjI [OF every conjI [OF first conjI [OF last ex]]]]])
qed

text \<open>The plan for 7 rows and 3 workers, from the theorem.\<close>

theorem shard_plan_partition_witness:
  "(1::nat) \<le> 3 \<and> (3::nat) \<le> 7
   \<and> length (shard_bounds 7 3) = 3
   \<and> concat (map (\<lambda>(s, e). [s..<e]) (shard_bounds 7 3)) = [0..<7]
   \<and> shard_bounds 7 3 = [(0, 3), (3, 5), (5, 7)]"
proof -
  have h: "(1::nat) \<le> 3" "(3::nat) \<le> 7" by simp_all
  note t = shard_plan_partition [OF h]
  note a = t [THEN conjunct1]
  note b = t [THEN conjunct2, THEN conjunct1]
  note c = t [THEN conjunct2, THEN conjunct2, THEN conjunct2, THEN conjunct2, THEN conjunct2]
  show ?thesis
    by (rule conjI [OF h(1) conjI [OF h(2) conjI [OF a conjI [OF b c]]]])
qed

section \<open>Deleting an instance\<close>

lemma pop_fields_ok:
  assumes "list_all (\<lambda>(name, content). length content = n) fa" and "0 \<le> index" and "index < int n"
  shows "pop_fields fa index =
           (Inr (), map (\<lambda>(name, content).
                           (name, take (nat index) content @ drop (Suc (nat index)) content)) fa)"
  using assms
proof (induction fa)
  case Nil
  then show ?case by simp
next
  case (Cons p fa)
  obtain name content where p: "p = (name, content)" by (cases p)
  from Cons.prems p have l: "length content = n" by simp
  with Cons.prems have pop: "py_pop content index =
      Inr (take (nat index) content @ drop (Suc (nat index)) content)"
    by (simp add: py_pop_def)
  from Cons have "pop_fields fa index =
           (Inr (), map (\<lambda>(name, content).
                           (name, take (nat index) content @ drop (Suc (nat index)) content)) fa)"
    by simp
  with pop p show ?case by simp
qed

text \<open>
  C10. Deleting the instance of a dataset of one row (any index below 1, so index 0)
  clears the field mapping: no field name is left. Deleting the instance at a valid
  index \<open>0 \<le> index < N\<close> of a dataset of \<open>N \<ge> 2\<close> rows whose columns all have \<open>N\<close>
  values keeps every field name, in order, and removes the value at that index from
  every column.
\<close>

theorem delete_instance_fields:
  "(len ds = 1 \<and> index < 1 \<longrightarrow>
      delete_instance index ds = (Inr (), ds\<lparr>field_arrays := []\<rparr>))
   \<and> (same_length ds \<and> 2 \<le> len ds \<and> 0 \<le> index \<and> index < int (len ds) \<longrightarrow>
      delete_instance index ds =
        (Inr (), ds\<lparr>field_arrays :=
           map (\<lambda>(name, content).
                  (name, take (nat index) content @ drop (Suc (nat index)) content))
               (field_arrays ds)\<rparr>)
      \<and> map fst (field_arrays (snd (delete_instance index ds))) = map fst (field_arrays ds))"
proof (intro conjI impI)
  assume "len ds = 1 \<and> index < 1"
  then show "delete_instance index ds = (Inr (), ds\<lparr>field_arrays := []\<rparr>)"
    by (simp add: delete_instance_def)
next
  assume a: "same_length ds \<and> 2 \<le> len ds \<and> 0 \<le> index \<and> index < int (len ds)"
  then have "pop_fields (field_arrays ds) index =
           (Inr (), map (\<lambda>(name, content).
                           (name, take (nat index) content @ drop (Suc (nat index)) content))
                        (field_arrays ds))"
    by (intro pop_fields_ok [where n = "len ds"]) (simp_all add: same_length_def)
  with a show d: "delete_instance index ds =
        (Inr (), ds\<lparr>field_arrays :=
           map (\<lambda>(name, content).
                  (name, take (nat index) content @ drop (Suc (nat index)) content))
               (field_arrays ds)\<rparr>)"
    by (simp add: delete_instance_def)
  show "map fst (field_arrays (snd (delete_instance index ds))) = map fst (field_arrays ds)"
    by (simp add: d comp_def case_prod_unfold)
qed

text \<open>A dataset of one row and one of three rows, to run the theorem on.\<close>

definition ds_one :: "int DataSet" where
  "ds_one = \<lparr>field_arrays = [(''x'', [7]), (''y'', [8])]\<rparr>"

definition ds_three :: "int DataSet" where
  "ds_three = \<lparr>field_arrays = [(''x'', [1, 2, 3]), (''y'', [4, 5, 6])]\<rparr>"

theorem delete_instance_fields_witness:
  "len ds_one = 1 \<and> (0::int) < 1
   \<and> field_arrays (snd (delete_instance 0 ds_one )) = []
   \<and> same_length ds_three \<and> 2 \<le> len ds_three \<and> (1::int) < int (len ds_three)
   \<and> field_arrays (snd (delete_instance 1 ds_three )) =
        [(''x'', [1, 3]), (''y'', [4, 6])]"
proof -
  have one: "len ds_one = 1 \<and> (0::int) < 1"
    by (simp add: ds_one_def len_def)
  have three: "same_length ds_three \<and> 2 \<le> len ds_three \<and> (0::int) \<le> 1 \<and> (1::int) < int (len ds_three)"
    by (simp add: ds_three_def len_def same_length_def)
  note t1 = delete_instance_fields [of ds_one 0, THEN conjunct1, rule_format, OF one]
  note t3 = delete_instance_fields [of ds_three 1, THEN conjunct2, rule_format, OF three]
  show ?thesis
    using one three by (simp add: t1 t3) (simp add: ds_three_def)
qed

section \<open>Slicing, concatenating and appending\<close>

text \<open>Writing a key of an association list: a new key is put at the back, a key of a
  dict in use changes its own entry only.\<close>

lemma update_new: "k \<notin> set (map fst al) \<Longrightarrow> AList.update k v al = al @ [(k, v)]"
  by (induction al) auto

lemma map_other_key:
  "k \<notin> set (map fst al) \<Longrightarrow> map (\<lambda>(n, c). (n, if n = k then v else c)) al = al"
  by (induction al) auto

lemma update_as_map:
  "distinct (map fst al) \<Longrightarrow> k \<in> set (map fst al) \<Longrightarrow>
   AList.update k v al = map (\<lambda>(n, c). (n, if n = k then v else c)) al"
proof (induction al)
  case Nil
  then show ?case by simp
next
  case (Cons p al)
  obtain n c where p: "p = (n, c)" by (cases p)
  show ?case
  proof (cases "n = k")
    case True
    then have "k \<notin> set (map fst al)" using Cons.prems(1) p by simp
    then show ?thesis using True p by (simp add: map_other_key)
  next
    case False
    then show ?thesis using Cons p by simp
  qed
qed

lemma len_Cons: "len \<lparr>field_arrays = (n, c) # rest\<rparr> = length c"
  by (simp add: len_def)

lemma add_fields_ok:
  assumes "distinct (map fst (acc @ cols))"
    and "list_all (\<lambda>(n, c). length c = m) (acc @ cols)"
  shows "add_fields cols \<lparr>field_arrays = acc\<rparr> = Inr \<lparr>field_arrays = acc @ cols\<rparr>"
  using assms
proof (induction cols arbitrary: acc)
  case Nil
  then show ?case by simp
next
  case (Cons p cols)
  obtain n c where p: "p = (n, c)" by (cases p)
  have new: "n \<notin> set (map fst acc)" using Cons.prems(1) p by auto
  have lc: "length c = m" using Cons.prems(2) p by simp
  have chk: "acc \<noteq> [] \<Longrightarrow> len \<lparr>field_arrays = acc\<rparr> = length c"
  proof -
    assume "acc \<noteq> []"
    then obtain n' c' rest where acc: "acc = (n', c') # rest" by (cases acc) auto
    with Cons.prems(2) have "length c' = m" by simp
    with acc lc show ?thesis by (simp add: len_def)
  qed
  have step: "add_field n c \<lparr>field_arrays = acc\<rparr> = (Inr (), \<lparr>field_arrays = acc @ [(n, c)]\<rparr>)"
    using chk new by (auto simp: add_field_def update_new)
  have "add_fields cols \<lparr>field_arrays = acc @ [(n, c)]\<rparr> = Inr \<lparr>field_arrays = (acc @ [(n, c)]) @ cols\<rparr>"
    by (rule Cons.IH) (use Cons.prems p in simp_all)
  with step p show ?case by simp
qed

lemma py_slice_nat:
  assumes "s \<le> length xs" and "e \<le> length xs"
  shows "py_slice xs (Some (int s)) (Some (int e)) = take (e - s) (drop s xs)"
proof -
  have "slice_bound (length xs) (int s) = int s" "slice_bound (length xs) (int e) = int e"
    using assms by (simp_all add: slice_bound_def)
  moreover have "nat (int e - int s) = e - s" by simp
  ultimately show ?thesis by (simp add: py_slice_def)
qed

lemma getitem_slice_ok:
  assumes sl: "same_length ds" and un: "unique_names ds"
    and s: "s < len ds" and e: "e \<le> len ds"
  shows "getitem_slice ds (Some (int s)) (Some (int e)) =
           Inr \<lparr>field_arrays = map (\<lambda>(n, c). (n, take (e - s) (drop s c))) (field_arrays ds)\<rparr>"
proof -
  let ?cols = "map (\<lambda>(field_name, field). (field_name, py_slice field (Some (int s)) (Some (int e))))
                 (field_arrays ds)"
  have all: "\<And>n c. (n, c) \<in> set (field_arrays ds) \<Longrightarrow> length c = len ds"
    using sl by (auto simp: same_length_def list_all_iff)
  have cols: "?cols = map (\<lambda>(n, c). (n, take (e - s) (drop s c))) (field_arrays ds)"
    using all s e by (auto simp: py_slice_nat)
  have d: "distinct (map fst ([] @ ?cols))"
    using un by (simp add: unique_names_def comp_def case_prod_unfold)
  have l: "list_all (\<lambda>(n, c). length c = min (e - s) (len ds - s)) ([] @ ?cols)"
    unfolding cols using all by (auto simp: list_all_iff)
  have "add_fields ?cols \<lparr>field_arrays = []\<rparr> = Inr \<lparr>field_arrays = [] @ ?cols\<rparr>"
    using d l by (rule add_fields_ok)
  then show ?thesis
    using s by (simp add: getitem_slice_def cols)
qed


lemma concat_loop_ok:
  assumes "distinct (map fst cur)" and "distinct ns" and "set ns \<subseteq> set (map fst cur)"
    and "\<forall>n\<in>set ns. map_of (field_arrays d) n = Some (g n)"
  shows "concat_loop ns [] d cur =
           (Inr (), map (\<lambda>(n, c). (n, if n \<in> set ns then c @ g n else c)) cur)"
  using assms
proof (induction ns arbitrary: cur)
  case Nil
  then show ?case by (simp add: case_prod_unfold)
next
  case (Cons fn rest)
  from Cons.prems(3) have mem: "fn \<in> set (map fst cur)" by simp
  then obtain content where c: "map_of cur fn = Some content"
    by (metis map_of_eq_None_iff not_Some_eq set_map)
  let ?cur = "map (\<lambda>(n, c). (n, if n = fn then content @ g fn else c)) cur"
  have upd: "AList.update fn (content @ g fn) cur = ?cur"
    using Cons.prems(1) mem by (rule update_as_map)
  have keys: "map fst ?cur = map fst cur"
    by (simp add: comp_def case_prod_unfold)
  have ih: "concat_loop rest [] d ?cur =
           (Inr (), map (\<lambda>(n, c). (n, if n \<in> set rest then c @ g n else c)) ?cur)"
  proof (rule Cons.IH)
    show "distinct (map fst ?cur)" by (simp only: keys Cons.prems(1))
    show "distinct rest" using Cons.prems(2) by simp
    have "set rest \<subseteq> set (map fst cur)" using Cons.prems(3) by simp
    then show "set rest \<subseteq> set (map fst ?cur)" by (simp only: keys)
    show "\<forall>n\<in>set rest. map_of (field_arrays d) n = Some (g n)"
      using Cons.prems(4) by simp
  qed
  have other: "map_of (field_arrays d) fn = Some (g fn)"
    using Cons.prems(4) by simp
  have pt: "(\<lambda>(n, c). (n, if n \<in> set rest then c @ g n else c))
              ((\<lambda>(n, c). (n, if n = fn then content @ g fn else c)) x) =
            (\<lambda>(n, c). (n, if n \<in> set (fn # rest) then c @ g n else c)) x"
    if "x \<in> set cur" for x
  proof -
    obtain n c' where x: "x = (n, c')" by (cases x)
    show ?thesis
    proof (cases "n = fn")
      case True
      with that x have "(fn, c') \<in> set cur" by simp
      with Cons.prems(1) have "map_of cur fn = Some c'" by simp
      with c have "c' = content" by simp
      moreover have "fn \<notin> set rest" using Cons.prems(2) by simp
      ultimately show ?thesis using True x by simp
    next
      case False
      then show ?thesis using x by simp
    qed
  qed
  have "map (\<lambda>(n, c). (n, if n \<in> set rest then c @ g n else c)) ?cur =
        map (\<lambda>(n, c). (n, if n \<in> set (fn # rest) then c @ g n else c)) cur"
    using pt by (simp add: comp_def)
  with ih upd c other show ?case
    by (simp add: mapped_name_def)
qed


lemma slice_concat:
  assumes sl: "same_length ds" and un: "unique_names ds" and a: "0 < a" "a < len ds"
  shows "\<exists>d1 d2. getitem_slice ds (Some 0) (Some (int a)) = Inr d1
           \<and> getitem_slice ds (Some (int a)) (Some (int (len ds))) = Inr d2
           \<and> concat_ds d2 inplace None d1 = (Inr ds, if inplace then ds else d1)"
proof -
  let ?fa = "field_arrays ds"
  let ?N = "len ds"
  let ?d1 = "\<lparr>field_arrays = map (\<lambda>(n, c). (n, take a c)) ?fa\<rparr>"
  let ?d2 = "\<lparr>field_arrays = map (\<lambda>(n, c). (n, take (?N - a) (drop a c))) ?fa\<rparr>"
  let ?g = "\<lambda>n. case map_of ?fa n of None \<Rightarrow> [] | Some c \<Rightarrow> take (?N - a) (drop a c)"
  have all: "\<And>n c. (n, c) \<in> set ?fa \<Longrightarrow> length c = ?N"
    using sl by (auto simp: same_length_def list_all_iff)
  have dist: "distinct (map fst ?fa)" using un by (simp add: unique_names_def)
  have s1: "getitem_slice ds (Some 0) (Some (int a)) = Inr ?d1"
    using getitem_slice_ok [OF sl un, of 0 a] a by simp
  have s2: "getitem_slice ds (Some (int a)) (Some (int ?N)) = Inr ?d2"
    using getitem_slice_ok [OF sl un, of a ?N] a by simp
  have keys1: "map fst (field_arrays ?d1) = map fst ?fa"
    by (simp add: comp_def case_prod_unfold)
  have keys2: "map fst (field_arrays ?d2) = map fst ?fa"
    by (simp add: comp_def case_prod_unfold)
  have look: "\<forall>n\<in>set (map fst ?fa). map_of (field_arrays ?d2) n = Some (?g n)"
  proof
    fix n assume "n \<in> set (map fst ?fa)"
    then obtain c where "map_of ?fa n = Some c"
      by (metis map_of_eq_None_iff not_Some_eq set_map)
    then show "map_of (field_arrays ?d2) n = Some (?g n)"
      by (simp add: map_of_map)
  qed
  have loop: "concat_loop (map fst ?fa) [] ?d2 (field_arrays ?d1) =
      (Inr (), map (\<lambda>(n, c). (n, if n \<in> set (map fst ?fa) then c @ ?g n else c)) (field_arrays ?d1))"
  proof (rule concat_loop_ok)
    show "distinct (map fst (field_arrays ?d1))" by (simp only: keys1 dist)
    show "distinct (map fst ?fa)" by (rule dist)
    show "set (map fst ?fa) \<subseteq> set (map fst (field_arrays ?d1))" by (simp only: keys1 subset_refl)
    show "\<forall>n\<in>set (map fst ?fa). map_of (field_arrays ?d2) n = Some (?g n)" by (rule look)
  qed
  have pt: "(\<lambda>(n, c). (n, if n \<in> set (map fst ?fa) then c @ ?g n else c))
              ((\<lambda>(n, c). (n, take a c)) x) = x" if "x \<in> set ?fa" for x
  proof -
    obtain n c where x: "x = (n, c)" by (cases x)
    with that dist have m: "map_of ?fa n = Some c" by simp
    from that x have l: "length c = ?N" by (simp add: all)
    from that x have "n \<in> set (map fst ?fa)" by force
    with m l x show ?thesis by simp
  qed
  have restored: "map (\<lambda>(n, c). (n, if n \<in> set (map fst ?fa) then c @ ?g n else c)) (field_arrays ?d1) = ?fa"
    using pt by (simp add: comp_def map_idI)
  have diff: "set (map fst (field_arrays ?d1)) - set (map fst (field_arrays ?d2)) = {}"
    by (simp only: keys1 keys2 Diff_cancel)
  have loop': "concat_loop (map fst (field_arrays ?d1)) [] ?d2 (field_arrays ?d1) = (Inr (), ?fa)"
    by (simp only: keys1 loop restored)
  have upd: "?d1\<lparr>field_arrays := ?fa\<rparr> = ds" by simp
  have "concat_ds ?d2 inplace None ?d1 = (Inr ds, if inplace then ds else ?d1)"
    by (simp only: concat_ds_def Let_def option.case diff loop' prod.case sum.case upd
          simp_thms if_False if_True)
  with s1 s2 show ?thesis by blast
qed

lemma append_first_ok:
  "distinct (map fst acc @ map fst ins) \<Longrightarrow>
   append_first ins acc = acc @ map (\<lambda>(n, v). (n, [v])) ins"
proof (induction ins arbitrary: acc)
  case Nil
  then show ?case by simp
next
  case (Cons p ins)
  obtain n v where p: "p = (n, v)" by (cases p)
  have new: "n \<notin> set (map fst acc)" using Cons.prems p by auto
  have "append_first ins (acc @ [(n, [v])]) = (acc @ [(n, [v])]) @ map (\<lambda>(n, v). (n, [v])) ins"
    by (rule Cons.IH) (use Cons.prems p in auto)
  then show ?case using p new by (simp add: update_new)
qed

lemma getitem_fields_ok:
  "list_all (\<lambda>(n, c). i < length c) fa \<Longrightarrow>
   getitem_fields fa (int i) = Inr (map (\<lambda>(n, c). (n, c ! i)) fa)"
  by (induction fa) (auto simp: py_index_def)

lemma append_loop_ok:
  assumes "distinct (map fst fa)" and "distinct (map fst ins)"
    and "append_loop ins fa = (Inr (), fa')"
  shows "fa' = map (\<lambda>(n, c). (n, case map_of ins n of None \<Rightarrow> c | Some v \<Rightarrow> c @ [v])) fa
         \<and> set (map fst ins) \<subseteq> set (map fst fa)"
  using assms
proof (induction ins arbitrary: fa)
  case Nil
  then show ?case by (simp add: case_prod_unfold)
next
  case (Cons p rest)
  obtain n v where p: "p = (n, v)" by (cases p)
  from Cons.prems(3) p obtain c where c: "map_of fa n = Some c"
    by (cases "map_of fa n") auto
  then have mem: "n \<in> set (map fst fa)"
    by (metis map_of_eq_None_iff option.distinct(1) set_map)
  let ?fa = "map (\<lambda>(m, c'). (m, if m = n then c @ [v] else c')) fa"
  have upd: "AList.update n (c @ [v]) fa = ?fa"
    using Cons.prems(1) mem by (rule update_as_map)
  have keys: "map fst ?fa = map fst fa"
    by (simp add: comp_def case_prod_unfold)
  have run: "append_loop rest ?fa = (Inr (), fa')"
    using Cons.prems(3) p c upd by simp
  have ih: "fa' = map (\<lambda>(n, c). (n, case map_of rest n of None \<Rightarrow> c | Some v \<Rightarrow> c @ [v])) ?fa
         \<and> set (map fst rest) \<subseteq> set (map fst ?fa)"
  proof (rule Cons.IH)
    show "distinct (map fst ?fa)" by (simp only: keys Cons.prems(1))
    show "distinct (map fst rest)" using Cons.prems(2) by simp
    show "append_loop rest ?fa = (Inr (), fa')" by (rule run)
  qed
  have fresh: "map_of rest n = None"
    using Cons.prems(2) p by (simp add: map_of_eq_None_iff)
  have pt: "(\<lambda>(n, c). (n, case map_of rest n of None \<Rightarrow> c | Some v \<Rightarrow> c @ [v]))
              ((\<lambda>(m, c'). (m, if m = n then c @ [v] else c')) x) =
            (\<lambda>(n, c). (n, case map_of (p # rest) n of None \<Rightarrow> c | Some v \<Rightarrow> c @ [v])) x"
    if "x \<in> set fa" for x
  proof -
    obtain m c' where x: "x = (m, c')" by (cases x)
    show ?thesis
    proof (cases "m = n")
      case True
      with that x Cons.prems(1) have "map_of fa n = Some c'" by simp
      with c have "c' = c" by simp
      then show ?thesis using True x p fresh by simp
    next
      case False
      then show ?thesis using x p by simp
    qed
  qed
  have "map (\<lambda>(n, c). (n, case map_of rest n of None \<Rightarrow> c | Some v \<Rightarrow> c @ [v])) ?fa =
        map (\<lambda>(n, c). (n, case map_of (p # rest) n of None \<Rightarrow> c | Some v \<Rightarrow> c @ [v])) fa"
    using pt by (simp add: comp_def)
  moreover have "set (map fst (p # rest)) \<subseteq> set (map fst fa)"
    using ih mem p by (simp only: keys) simp
  ultimately show ?case using ih by simp
qed


lemma append_read:
  assumes sl: "same_length ds" and un: "unique_names ds"
    and di: "distinct (map fst ins)" and ap: "append_ds ins ds = (Inr (), ds')"
  shows "\<exists>row. getitem_int ds' (int (len ds)) = Inr row \<and> map_of row = map_of ins"
proof (cases "field_arrays ds = []")
  case True
  then have l: "len ds = 0" by (simp add: len_def)
  have "append_first ins [] = [] @ map (\<lambda>(n, v). (n, [v])) ins"
    by (rule append_first_ok) (use di in simp)
  with True ap have fa': "field_arrays ds' = map (\<lambda>(n, v). (n, [v])) ins"
    by (auto simp: append_ds_def)
  have "getitem_fields (field_arrays ds') (int 0) =
          Inr (map (\<lambda>(n, c). (n, c ! 0)) (field_arrays ds'))"
    by (rule getitem_fields_ok) (simp add: fa' list_all_iff case_prod_unfold)
  also have "map (\<lambda>(n, c). (n, c ! 0)) (field_arrays ds') = ins"
    by (simp add: fa' comp_def case_prod_unfold)
  finally show ?thesis using l by (simp add: getitem_int_def)
next
  case False
  let ?fa = "field_arrays ds"
  let ?N = "len ds"
  let ?h = "\<lambda>(n, c). (n, case map_of ins n of None \<Rightarrow> c | Some v \<Rightarrow> c @ [v])"
  have dist: "distinct (map fst ?fa)" using un by (simp add: unique_names_def)
  have all: "\<And>n c. (n, c) \<in> set ?fa \<Longrightarrow> length c = ?N"
    using sl by (auto simp: same_length_def list_all_iff)
  from False ap have eq: "length ?fa = length ins"
    by (auto simp: append_ds_def split: if_splits)
  have c1: "(length ?fa = 0) = False" using False by simp
  have c2: "(length ?fa \<noteq> length ins) = False" using eq by simp
  from ap have "(case append_loop ins ?fa of (r, fa) \<Rightarrow> (r, ds\<lparr>field_arrays := fa\<rparr>)) =
      (Inr (), ds')"
    by (simp only: append_ds_def c1 c2 if_False)
  then obtain fa' where run: "append_loop ins ?fa = (Inr (), fa')"
    and ds': "field_arrays ds' = fa'"
    by (cases "append_loop ins ?fa") auto
  from append_loop_ok [OF dist di run]
  have fa': "fa' = map ?h ?fa" and sub: "set (map fst ins) \<subseteq> set (map fst ?fa)"
    by simp_all
  have k1: "card (set (map fst ins)) = length (map fst ins)" using di by (rule distinct_card)
  have k2: "card (set (map fst ?fa)) = length (map fst ?fa)" using dist by (rule distinct_card)
  have "card (set (map fst ?fa)) \<le> card (set (map fst ins))"
    by (simp only: k1 k2 length_map eq order_refl)
  with sub have same: "set (map fst ins) = set (map fst ?fa)"
    by (intro card_seteq) simp_all
  have val: "\<exists>v. map_of ins n = Some v" if "(n, c) \<in> set ?fa" for n c
  proof -
    from that have "n \<in> set (map fst ?fa)" by force
    with same have "n \<in> set (map fst ins)" by simp
    then show ?thesis by (metis map_of_eq_None_iff not_Some_eq set_map)
  qed
  have long: "list_all (\<lambda>(n, c). ?N < length c) fa'"
    unfolding fa' using all val by (force simp: list_all_iff)
  have read: "getitem_fields fa' (int ?N) = Inr (map (\<lambda>(n, c). (n, c ! ?N)) fa')"
    using long by (rule getitem_fields_ok)
  let ?row = "map (\<lambda>(n, c). (n, c ! ?N)) fa'"
  have rk: "map fst ?row = map fst ?fa"
    unfolding fa' by (simp add: comp_def case_prod_unfold)
  have "map_of ?row m = map_of ins m" for m
  proof (cases "m \<in> set (map fst ?fa)")
    case True
    then obtain c where mc: "(m, c) \<in> set ?fa" by auto
    with val obtain v where v: "map_of ins m = Some v" by blast
    from mc all have lc: "?N = length c" by simp
    have "(\<lambda>(n, c). (n, c ! ?N)) (?h (m, c)) = (m, v)"
      using v by (simp add: lc)
    moreover have "(\<lambda>(n, c). (n, c ! ?N)) (?h (m, c)) \<in> set ?row"
      unfolding fa' set_map using mc by (intro imageI)
    ultimately have "(m, v) \<in> set ?row" by simp
    moreover have "distinct (map fst ?row)"
      by (simp only: rk dist)
    ultimately have "map_of ?row m = Some v" by simp
    with v show ?thesis by simp
  next
    case False
    then have "m \<notin> set (map fst ?row)"
      by (simp only: rk not_False_eq_True)
    then have "map_of ?row m = None" by (simp only: map_of_eq_None_iff set_map not_False_eq_True)
    moreover from False same have "map_of ins m = None"
      by (simp add: map_of_eq_None_iff)
    ultimately show ?thesis by simp
  qed
  then have "map_of ?row = map_of ins" by (rule ext)
  with read ds' show ?thesis by (simp add: getitem_int_def)
qed

text \<open>
  C9. For a dataset whose columns all have the length of the dataset (under distinct
  names, as in a dict) and a split point \<open>0 < a < N\<close>: the slices \<^verbatim>\<open>ds[0:a]\<close> and
  \<^verbatim>\<open>ds[a:N]\<close> exist, and concatenating the second onto the first returns a dataset
  equal to the original, field for field and value for value (in place, the first
  slice becomes that dataset). And when appending a row of distinct field names
  succeeds, the row read back at the index of the new row (the former length) holds
  the inserted value under every field name and nothing else.
\<close>

theorem slice_concat_roundtrip:
  assumes "same_length ds" and "unique_names ds"
  shows "(0 < a \<and> a < len ds \<longrightarrow>
           (\<exists>d1 d2. getitem_slice ds (Some 0) (Some (int a)) = Inr d1
              \<and> getitem_slice ds (Some (int a)) (Some (int (len ds))) = Inr d2
              \<and> concat_ds d2 inplace None d1 = (Inr ds, if inplace then ds else d1)))
       \<and> (distinct (map fst ins) \<and> append_ds ins ds = (Inr (), ds') \<longrightarrow>
           (\<exists>row. getitem_int ds' (int (len ds)) = Inr row \<and> map_of row = map_of ins))"
proof (intro conjI impI)
  assume "0 < a \<and> a < len ds"
  then show "\<exists>d1 d2. getitem_slice ds (Some 0) (Some (int a)) = Inr d1
              \<and> getitem_slice ds (Some (int a)) (Some (int (len ds))) = Inr d2
              \<and> concat_ds d2 inplace None d1 = (Inr ds, if inplace then ds else d1)"
    using slice_concat [OF assms, of a inplace] by simp
next
  assume "distinct (map fst ins) \<and> append_ds ins ds = (Inr (), ds')"
  then show "\<exists>row. getitem_int ds' (int (len ds)) = Inr row \<and> map_of row = map_of ins"
    using append_read [OF assms, of ins ds'] by simp
qed

text \<open>A row for the dataset of three rows, and the dataset after appending it.\<close>

definition row_new :: "int Instance" where
  "row_new = [(''y'', 9), (''x'', 8)]"

definition ds_four :: "int DataSet" where
  "ds_four = \<lparr>field_arrays = [(''x'', [1, 2, 3, 8]), (''y'', [4, 5, 6, 9])]\<rparr>"

theorem slice_concat_roundtrip_witness:
  "same_length ds_three \<and> unique_names ds_three \<and> (0::nat) < 1 \<and> 1 < len ds_three
   \<and> (\<exists>d1 d2. getitem_slice ds_three (Some 0) (Some (int 1)) = Inr d1
          \<and> getitem_slice ds_three (Some (int 1)) (Some (int (len ds_three))) = Inr d2
          \<and> concat_ds d2 True None d1 = (Inr ds_three, ds_three))
   \<and> distinct (map fst row_new) \<and> append_ds row_new ds_three = (Inr (), ds_four)
   \<and> (\<exists>row. getitem_int ds_four (int (len ds_three)) = Inr row \<and> map_of row = map_of row_new)"
proof -
  have h1: "same_length ds_three" by (simp add: ds_three_def len_def same_length_def)
  have h2: "unique_names ds_three" by (simp add: ds_three_def unique_names_def)
  have h3: "(0::nat) < 1 \<and> 1 < len ds_three" by (simp add: ds_three_def len_def)
  have h4: "distinct (map fst row_new) \<and> append_ds row_new ds_three = (Inr (), ds_four)"
    by (simp add: row_new_def ds_three_def ds_four_def append_ds_def)
  note t = slice_concat_roundtrip [OF h1 h2, of 1 True row_new ds_four]
  from t [THEN conjunct1, rule_format, OF h3]
  have a: "\<exists>d1 d2. getitem_slice ds_three (Some 0) (Some (int 1)) = Inr d1
          \<and> getitem_slice ds_three (Some (int 1)) (Some (int (len ds_three))) = Inr d2
          \<and> concat_ds d2 True None d1 = (Inr ds_three, ds_three)"
    by simp
  note b = t [THEN conjunct2, rule_format, OF h4]
  show ?thesis
    using h1 h2 h3 h4 a b by (intro conjI) simp_all
qed

section \<open>The invariant of the column store\<close>

text \<open>
  The row count is \<open>len\<close>: the length of the first column, and 0 for an empty field
  mapping. The lemmas of this section show that \<^verbatim>\<open>add_field\<close>, \<^verbatim>\<open>add_fieldarray\<close>,
  \<^verbatim>\<open>delete_field\<close>, \<^verbatim>\<open>rename_field\<close>, \<^verbatim>\<open>delete_instance\<close> and the write-back of apply
  results leave all columns of one length whatever their outcome, and \<^verbatim>\<open>append\<close>
  when it returns.
\<close>

lemma same_length_iff:
  "same_length ds \<longleftrightarrow> (\<exists>N. list_all (\<lambda>(n, c). length c = N) (field_arrays ds))"
proof
  assume "same_length ds"
  then show "\<exists>N. list_all (\<lambda>(n, c). length c = N) (field_arrays ds)"
    unfolding same_length_def by blast
next
  assume "\<exists>N. list_all (\<lambda>(n, c). length c = N) (field_arrays ds)"
  then obtain N where N: "list_all (\<lambda>(n, c). length c = N) (field_arrays ds)" by blast
  show "same_length ds"
  proof (cases "field_arrays ds")
    case Nil
    then show ?thesis by (simp add: same_length_def)
  next
    case (Cons p rest)
    obtain n c where "p = (n, c)" by (cases p)
    with Cons N have "len ds = N" by (simp add: len_def)
    with N show ?thesis by (simp add: same_length_def)
  qed
qed

lemma same_length_cols:
  "same_length ds \<Longrightarrow> list_all (\<lambda>(n, c). length c = len ds) (field_arrays ds)"
  by (simp add: same_length_def)

lemma list_all_update:
  "list_all P al \<Longrightarrow> P (k, v) \<Longrightarrow> list_all P (AList.update k v al)"
  by (induction al) auto

lemma list_all_delete:
  "list_all P al \<Longrightarrow> list_all P (AList.delete k al)"
  by (induction al) auto

lemma add_field_same_length:
  assumes "same_length ds"
  shows "same_length (snd (add_field field_name col ds))"
proof (cases "length (field_arrays ds) \<noteq> 0 \<and> len ds \<noteq> length col")
  case True
  then show ?thesis using assms by (simp add: add_field_def)
next
  case False
  have "list_all (\<lambda>(n, c). length c = length col) (field_arrays ds)"
  proof (cases "field_arrays ds = []")
    case True
    then show ?thesis by simp
  next
    case ne: False
    with False have "len ds = length col" by simp
    with assms show ?thesis by (simp add: same_length_def)
  qed
  then have "list_all (\<lambda>(n, c). length c = length col)
               (AList.update field_name col (field_arrays ds))"
    by (rule list_all_update) simp
  then have "same_length (ds\<lparr>field_arrays := AList.update field_name col (field_arrays ds)\<rparr>)"
    by (subst same_length_iff) auto
  with False show ?thesis by (auto simp: add_field_def)
qed

lemma add_fieldarray_same_length:
  assumes "same_length ds"
  shows "same_length (snd (add_fieldarray field_name col ds))"
proof (cases "len ds \<noteq> length col")
  case True
  then show ?thesis using assms by (simp add: add_fieldarray_def)
next
  case False
  with assms have "list_all (\<lambda>(n, c). length c = length col) (field_arrays ds)"
    by (simp add: same_length_def)
  then have "list_all (\<lambda>(n, c). length c = length col)
               (AList.update field_name col (field_arrays ds))"
    by (rule list_all_update) simp
  then have "same_length (ds\<lparr>field_arrays := AList.update field_name col (field_arrays ds)\<rparr>)"
    by (subst same_length_iff) auto
  with False show ?thesis by (simp add: add_fieldarray_def)
qed

lemma delete_field_same_length:
  assumes "same_length ds"
  shows "same_length (snd (delete_field field_name ds))"
proof -
  have "list_all (\<lambda>(n, c). length c = len ds) (AList.delete field_name (field_arrays ds))"
    using assms by (intro list_all_delete same_length_cols)
  then have "same_length (ds\<lparr>field_arrays := AList.delete field_name (field_arrays ds)\<rparr>)"
    by (subst same_length_iff) auto
  then show ?thesis using assms by (simp add: delete_field_def)
qed

lemma rename_field_same_length:
  assumes "same_length ds"
  shows "same_length (snd (rename_field field_name new_field_name ds))"
proof (cases "map_of (field_arrays ds) field_name")
  case None
  then show ?thesis using assms by (simp add: rename_field_def)
next
  case (Some content)
  then have "(field_name, content) \<in> set (field_arrays ds)" by (rule map_of_SomeD)
  with assms have l: "length content = len ds"
    by (auto simp: same_length_def list_all_iff)
  have "list_all (\<lambda>(n, c). length c = len ds)
          (AList.update new_field_name content (AList.delete field_name (field_arrays ds)))"
    using assms l by (intro list_all_update list_all_delete same_length_cols) simp_all
  then have "same_length (ds\<lparr>field_arrays :=
      AList.update new_field_name content (AList.delete field_name (field_arrays ds))\<rparr>)"
    by (subst same_length_iff) auto
  with Some show ?thesis by (simp add: rename_field_def)
qed


lemma pop_fields_uniform:
  assumes "list_all (\<lambda>(n, c). length c = N) fa"
  shows "list_all (\<lambda>(n, c). length c = N) (snd (pop_fields fa index))
         \<or> list_all (\<lambda>(n, c). length c = N - 1) (snd (pop_fields fa index))"
proof (cases "0 \<le> (if index < 0 then index + int N else index)
              \<and> (if index < 0 then index + int N else index) < int N")
  case True
  let ?j = "nat (if index < 0 then index + int N else index)"
  have j: "?j < N" using True by auto
  have "list_all (\<lambda>(n, c). length c = N - 1) (snd (pop_fields fa index))"
    using assms
  proof (induction fa)
    case Nil
    then show ?case by simp
  next
    case (Cons p fa)
    obtain n c where p: "p = (n, c)" by (cases p)
    with Cons.prems have l: "length c = N" by simp
    then have pop: "py_pop c index = Inr (take ?j c @ drop (Suc ?j) c)"
      using True by (simp add: py_pop_def Let_def)
    have "length (take ?j c @ drop (Suc ?j) c) = N - 1"
      using l j by simp
    moreover have "list_all (\<lambda>(n, c). length c = N - 1) (snd (pop_fields fa index))"
      using Cons by simp
    ultimately show ?case using p pop by (simp add: case_prod_unfold)
  qed
  then show ?thesis ..
next
  case False
  have "snd (pop_fields fa index) = fa"
  proof (cases fa)
    case Nil
    then show ?thesis by simp
  next
    case (Cons p rest)
    obtain n c where p: "p = (n, c)" by (cases p)
    with Cons assms have "length c = N" by simp
    then have "py_pop c index = Inl IndexError"
      using False by (simp add: py_pop_def Let_def)
    with Cons p show ?thesis by simp
  qed
  with assms show ?thesis by simp
qed

lemma delete_instance_same_length:
  assumes "same_length ds"
  shows "same_length (snd (delete_instance index ds))"
proof -
  have "\<exists>N. list_all (\<lambda>(n, c). length c = N) (snd (pop_fields (field_arrays ds) index))"
    using pop_fields_uniform [OF same_length_cols [OF assms], of index] by blast
  then have "same_length (ds\<lparr>field_arrays := snd (pop_fields (field_arrays ds) index)\<rparr>)"
    by (subst same_length_iff) simp
  moreover have "same_length (ds\<lparr>field_arrays := []\<rparr>)"
    by (simp add: same_length_def)
  ultimately show ?thesis
    using assms by (simp add: delete_instance_def case_prod_unfold)
qed

lemma write_back_same_length:
  "same_length ds \<Longrightarrow> same_length (snd (write_back results ds))"
proof (induction results arbitrary: ds)
  case Nil
  then show ?case by simp
next
  case (Cons p results)
  obtain field res where p: "p = (field, res)" by (cases p)
  have s: "same_length (snd (add_field field res ds))"
    using Cons.prems by (rule add_field_same_length)
  show ?case
  proof (cases "add_field field res ds")
    case (Pair r ds1)
    with s have s1: "same_length ds1" by simp
    show ?thesis
    proof (cases r)
      case (Inl e)
      with Pair p s1 show ?thesis by simp
    next
      case (Inr u)
      with Pair p Cons.IH [OF s1] show ?thesis by simp
    qed
  qed
qed

lemma append_first_uniform:
  "list_all (\<lambda>(n, c). length c = 1) acc \<Longrightarrow>
   list_all (\<lambda>(n, c). length c = 1) (append_first ins acc)"
proof (induction ins arbitrary: acc)
  case Nil
  then show ?case by simp
next
  case (Cons p ins)
  obtain n v where p: "p = (n, v)" by (cases p)
  have "list_all (\<lambda>(n, c). length c = 1) (AList.update n [v] acc)"
    using Cons.prems by (rule list_all_update) simp
  then have "list_all (\<lambda>(n, c). length c = 1) (append_first ins (AList.update n [v] acc))"
    by (rule Cons.IH)
  then show ?case using p by simp
qed

lemma append_same_length:
  assumes sl: "same_length ds" and un: "unique_names ds"
    and di: "distinct (map fst ins)" and ap: "append_ds ins ds = (Inr (), ds')"
  shows "same_length ds'"
proof (cases "field_arrays ds = []")
  case True
  have "list_all (\<lambda>(n, c). length c = 1) (append_first ins [])"
    by (rule append_first_uniform) simp
  moreover from True ap have "field_arrays ds' = append_first ins []"
    by (auto simp: append_ds_def)
  ultimately show ?thesis by (subst same_length_iff) auto
next
  case False
  let ?fa = "field_arrays ds"
  let ?h = "\<lambda>(n, c). (n, case map_of ins n of None \<Rightarrow> c | Some v \<Rightarrow> c @ [v])"
  have dist: "distinct (map fst ?fa)" using un by (simp add: unique_names_def)
  from False ap have eq: "length ?fa = length ins"
    by (auto simp: append_ds_def split: if_splits)
  have c1: "(length ?fa = 0) = False" using False by simp
  have c2: "(length ?fa \<noteq> length ins) = False" using eq by simp
  from ap have "(case append_loop ins ?fa of (r, fa) \<Rightarrow> (r, ds\<lparr>field_arrays := fa\<rparr>)) =
      (Inr (), ds')"
    by (simp only: append_ds_def c1 c2 if_False)
  then obtain fa' where run: "append_loop ins ?fa = (Inr (), fa')"
    and ds': "field_arrays ds' = fa'"
    by (cases "append_loop ins ?fa") auto
  from append_loop_ok [OF dist di run]
  have fa': "fa' = map ?h ?fa" and sub: "set (map fst ins) \<subseteq> set (map fst ?fa)"
    by simp_all
  have k1: "card (set (map fst ins)) = length (map fst ins)" using di by (rule distinct_card)
  have k2: "card (set (map fst ?fa)) = length (map fst ?fa)" using dist by (rule distinct_card)
  have "card (set (map fst ?fa)) \<le> card (set (map fst ins))"
    by (simp only: k1 k2 length_map eq order_refl)
  with sub have same: "set (map fst ins) = set (map fst ?fa)"
    by (intro card_seteq) simp_all
  have "length (snd (?h x)) = Suc (len ds)" if "x \<in> set ?fa" for x
  proof -
    obtain n c where x: "x = (n, c)" by (cases x)
    with that have "n \<in> set (map fst ?fa)" by force
    with same have "n \<in> set (map fst ins)" by simp
    then obtain v where "map_of ins n = Some v"
      by (metis map_of_eq_None_iff not_Some_eq set_map)
    moreover from that x sl have "length c = len ds"
      by (auto simp: same_length_def list_all_iff)
    ultimately show ?thesis using x by simp
  qed
  then have "list_all (\<lambda>(n, c). length c = Suc (len ds)) fa'"
    unfolding fa' by (auto simp: list_all_iff)
  with ds' show ?thesis by (subst same_length_iff) auto
qed

text \<open>A dataset of one row with the fields \<open>a\<close> and \<open>b\<close>.\<close>

definition ds_ab :: "int DataSet" where
  "ds_ab = \<lparr>field_arrays = [(''a'', [1]), (''b'', [2])]\<rparr>"

text \<open>
  C8 (every public mutating operation keeps all columns at one length, the row count
  being the length of one column) does not hold of \<^verbatim>\<open>append\<close>: appending an instance
  with the fields \<open>a\<close> and \<open>c\<close> to the dataset with the fields \<open>a\<close> and \<open>b\<close> passes the
  comparison of the field counts, appends to column \<open>a\<close>, and then fails the
  assertion on \<open>c\<close>. The dataset is left with column \<open>a\<close> of length 2 and column \<open>b\<close>
  of length 1.
\<close>

theorem append_mismatch_breaks_same_length:
  "same_length ds_ab
   \<and> append_ds [(''a'', 3), (''c'', 4)] ds_ab =
       (Inl AssertionError, \<lparr>field_arrays = [(''a'', [1, 3]), (''b'', [2])]\<rparr>)
   \<and> \<not> same_length (snd (append_ds [(''a'', 3), (''c'', 4)] ds_ab))"
  by (simp add: ds_ab_def append_ds_def same_length_def len_def)

section \<open>Runs of the worker task\<close>

text \<open>
  \<open>row_result\<close> is what one pass of the loop of \<^verbatim>\<open>_apply_single\<close> computes for the
  row of an index: reading the row, choosing the argument, applying the user function.
  \<open>row_events\<close> is what the pass writes to the trace when it completes.
\<close>

definition row_result ::
  "'v DataSet \<Rightarrow> string option \<Rightarrow> ('v func_arg \<Rightarrow> error + 'r) \<Rightarrow> nat \<Rightarrow> error + 'r" where
  "row_result ds fld func i =
     (case getitem_int ds (int i) of
        Inl e \<Rightarrow> Inl e
      | Inr ins \<Rightarrow>
          (case pick_arg fld ins of Inl e \<Rightarrow> Inl e | Inr arg \<Rightarrow> func arg))"

definition row_events :: "bool \<Rightarrow> bool \<Rightarrow> nat \<Rightarrow> event list" where
  "row_events show_bar pipe i =
     Call (int i) # (if pipe then [Send (int i + 1)] else []) @
     (if show_bar then [Advance] else [])"

lemma single_loop_ok_prefix:
  assumes "\<forall>i\<in>set pre. row_result ds fld func i = Inr (g i)"
  shows "single_loop ds fld func show_bar pipe (pre @ post) idx results =
     (case single_loop ds fld func show_bar pipe post
             (if pre = [] then idx else int (last pre)) (results @ map g pre) of
        (tr, idx', out) \<Rightarrow> (concat (map (row_events show_bar pipe) pre) @ tr, idx', out))"
  using assms
proof (induction pre arbitrary: idx results)
  case Nil
  then show ?case by (simp add: case_prod_unfold)
next
  case (Cons i pre)
  from Cons.prems have ri: "row_result ds fld func i = Inr (g i)" by simp
  then obtain ins arg where ins: "getitem_int ds (int i) = Inr ins"
    and arg: "pick_arg fld ins = Inr arg" and f: "func arg = Inr (g i)"
    by (auto simp: row_result_def split: sum.splits)
  have ih: "single_loop ds fld func show_bar pipe (pre @ post) (int i) (results @ [g i]) =
     (case single_loop ds fld func show_bar pipe post
             (if pre = [] then int i else int (last pre)) ((results @ [g i]) @ map g pre) of
        (tr, idx', out) \<Rightarrow> (concat (map (row_events show_bar pipe) pre) @ tr, idx', out))"
    by (rule Cons.IH) (use Cons.prems in simp)
  have hd: "row_events show_bar pipe i = Call (int i) # (if pipe then [Send (int i + 1)] else []) @
      (if show_bar then [Advance] else [])"
    by (simp add: row_events_def)
  show ?case
    using ins arg f by (simp add: ih case_prod_unfold hd)
qed

lemma single_loop_fail_head:
  assumes "row_result ds fld func j = Inl e"
  shows "\<exists>tr idx'. single_loop ds fld func show_bar pipe (j # post) idx results = (tr, idx', Inl e)
           \<and> sends tr = [] \<and> (idx' = idx \<or> idx' = int j)"
  using assms
  by (auto simp: row_result_def sends_def split: sum.splits)

lemma single_loop_fail_func:
  assumes "getitem_int ds (int j) = Inr ins" and "pick_arg fld ins = Inr arg"
    and "func arg = Inl e"
  shows "single_loop ds fld func show_bar pipe (j # post) idx results =
           ([Call (int j)], int j, Inl e)"
  using assms by simp

lemma sends_append: "sends (xs @ ys) = sends xs @ sends ys"
  by (simp add: sends_def)

lemma calls_append: "calls (xs @ ys) = calls xs @ calls ys"
  by (simp add: calls_def)

lemma prints_append: "prints (xs @ ys) = prints xs @ prints ys"
  by (simp add: prints_def)

lemma sends_rows:
  "sends (concat (map (row_events show_bar pipe) is)) =
     (if pipe then map (\<lambda>i. int i + 1) is else [])"
  by (induction "is") (auto simp: sends_def row_events_def)

lemma calls_rows: "calls (concat (map (row_events show_bar pipe) is)) = map int is"
  by (induction "is") (auto simp: calls_def row_events_def)

lemma prints_rows: "prints (concat (map (row_events show_bar pipe) is)) = []"
  by (induction "is") (auto simp: prints_def row_events_def)


lemma apply_single_ok:
  assumes "\<forall>i<len ds. row_result ds fld func i = Inr (g i)"
  shows "apply_single ds fld func show_bar pipe =
     ((if show_bar then [AddTask (len ds)] else []) @
      concat (map (row_events show_bar pipe) [0..<len ds]) @
      (if show_bar then [DestroyTask] else []),
      Inr (map g [0..<len ds]))"
proof -
  have "\<forall>i\<in>set [0..<len ds]. row_result ds fld func i = Inr (g i)"
    using assms by simp
  from single_loop_ok_prefix [OF this, of show_bar pipe "[]" "- 1" "[]"]
  show ?thesis by (simp add: apply_single_def)
qed

lemma apply_single_fail_func:
  assumes j: "j < len ds"
    and ok: "\<forall>i<j. row_result ds fld func i = Inr (g i)"
    and bad: "getitem_int ds (int j) = Inr ins" "pick_arg fld ins = Inr arg" "func arg = Inl e"
  shows "apply_single ds fld func show_bar pipe =
     ((if show_bar then [AddTask (len ds)] else []) @
      concat (map (row_events show_bar pipe) [0..<j]) @ [Call (int j), PrintAt (int j)] @
      (if show_bar then [DestroyTask] else []),
      Inl e)"
proof -
  have a: "[0..<j + (len ds - j)] = [0..<j] @ [j..<j + (len ds - j)]"
    by (rule upt_add_eq_append) simp
  have b: "j + (len ds - j) = len ds" using j by simp
  have c: "[j..<len ds] = j # [Suc j..<len ds]" using j by (rule upt_conv_Cons)
  have split: "[0..<len ds] = [0..<j] @ j # [Suc j..<len ds]"
    using a unfolding b c .
  have "\<forall>i\<in>set [0..<j]. row_result ds fld func i = Inr (g i)"
    using ok by simp
  from single_loop_ok_prefix [OF this, of show_bar pipe "j # [Suc j..<len ds]" "- 1" "[]"]
  have "single_loop ds fld func show_bar pipe [0..<len ds] (- 1) [] =
      (concat (map (row_events show_bar pipe) [0..<j]) @ [Call (int j)], int j, Inl e)"
    unfolding split
    using single_loop_fail_func [of ds j ins fld arg func e, OF bad] by simp
  then show ?thesis by (simp add: apply_single_def)
qed

section \<open>Failure of the user function in a single-process apply\<close>

text \<open>
  C7. In a single-process \<^verbatim>\<open>apply\<close> (worker count 0), when the user function
  returns for the rows before row \<open>j\<close> and raises \<open>e\<close> on row \<open>j\<close>, the call raises
  that same \<open>e\<close> and leaves the dataset as it was; the user function was applied to
  the rows \<open>0, ..., j\<close> in order and to no other row (none skipped, none after the
  failure); and the one index printed by
  \<^verbatim>\<open>print("Exception happens at the `{}`th instance.".format(idx))\<close> is \<open>j\<close>, the index
  of the row in the whole dataset.
\<close>

theorem single_process_failure_index:
  assumes "j < len ds"
    and "\<forall>i<j. \<exists>r. row_result ds None func i = Inr r"
    and "getitem_int ds (int j) = Inr ins" and "func (Row ins) = Inl e"
  shows "\<exists>tr. apply_ds func new_field_name 0 show_bar ds = (tr, Some (Inl e), ds)
           \<and> calls tr = map int [0..<Suc j] \<and> prints tr = [int j]"
proof -
  let ?g = "\<lambda>i. projr (row_result ds None func i)"
  have ok: "\<forall>i<j. row_result ds None func i = Inr (?g i)"
    using assms(2) by auto
  have pick: "pick_arg None ins = Inr (Row ins)" by (simp add: pick_arg_def)
  let ?tr = "(if show_bar then [AddTask (len ds)] else []) @
      concat (map (row_events show_bar False) [0..<j]) @ [Call (int j), PrintAt (int j)] @
      (if show_bar then [DestroyTask] else [])"
  have run: "apply_single ds None func show_bar False = (?tr, Inl e)"
    using assms(1) ok assms(3) pick assms(4) by (rule apply_single_fail_func)
  have ne: "len ds \<noteq> 0" using assms(1) by simp
  have res: "apply_ds func new_field_name 0 show_bar ds = (?tr, Some (Inl e), ds)"
    using ne by (simp add: apply_ds_def apply_process_def run)
  have c: "calls ?tr = map int [0..<Suc j]"
    by (simp add: calls_append calls_rows) (simp add: calls_def)
  have p: "prints ?tr = [int j]"
    by (simp add: prints_append prints_rows) (simp add: prints_def)
  from res c p show ?thesis by blast
qed

text \<open>A dataset of ten rows and a user function that raises on the row whose value is
  4: the call reports index 4.\<close>

definition ds_ten :: "int DataSet" where
  "ds_ten = \<lparr>field_arrays = [(''x'', [0, 1, 2, 3, 4, 5, 6, 7, 8, 9])]\<rparr>"

definition fails_on_four :: "int func_arg \<Rightarrow> error + int" where
  "fails_on_four arg =
     (case arg of
        Row ins \<Rightarrow>
          (case map_of ins ''x'' of
             None \<Rightarrow> Inl (KeyError ''x'')
           | Some v \<Rightarrow> if v = 4 then Inl (Raised ''bad row'') else Inr (2 * v))
      | Val v \<Rightarrow> Inr (2 * v))"

theorem single_process_failure_index_witness:
  "4 < len ds_ten
   \<and> map (row_result ds_ten None fails_on_four) [0, 1, 2, 3] = [Inr 0, Inr 2, Inr 4, Inr 6]
   \<and> getitem_int ds_ten (int 4) = Inr [(''x'', 4)]
   \<and> fails_on_four (Row [(''x'', 4)]) = Inl (Raised ''bad row'')
   \<and> (\<exists>tr. apply_ds fails_on_four None 0 True ds_ten = (tr, Some (Inl (Raised ''bad row'')), ds_ten)
          \<and> calls tr = map int [0..<Suc 4] \<and> prints tr = [int 4])"
proof -
  have h1: "4 < len ds_ten" by (simp add: ds_ten_def len_def)
  have rows: "map (row_result ds_ten None fails_on_four) [0, 1, 2, 3] = [Inr 0, Inr 2, Inr 4, Inr 6]"
    by (simp add: row_result_def getitem_int_def ds_ten_def py_index_def pick_arg_def
          fails_on_four_def)
  have h2: "\<forall>i<4. \<exists>r. row_result ds_ten None fails_on_four i = Inr r"
  proof (intro allI impI)
    fix i :: nat assume "i < 4"
    then have "i = 0 \<or> i = 1 \<or> i = 2 \<or> i = 3" by arith
    with rows show "\<exists>r. row_result ds_ten None fails_on_four i = Inr r" by auto
  qed
  have h3: "getitem_int ds_ten (int 4) = Inr [(''x'', 4)]"
    by (simp add: getitem_int_def ds_ten_def py_index_def)
  have h4: "fails_on_four (Row [(''x'', 4)]) = Inl (Raised ''bad row'')"
    by (simp add: fails_on_four_def)
  note t = single_process_failure_index [OF h1 h2 h3 h4, of None True]
  show ?thesis
    by (rule conjI [OF h1 conjI [OF rows conjI [OF h3 conjI [OF h4 t]]]])
qed

section \<open>The multi-process path\<close>

text \<open>
  Every worker call carries the keyword \<^verbatim>\<open>proc_id\<close>, which is no parameter of
  \<^verbatim>\<open>_apply_single\<close>: the call raises \<^verbatim>\<open>TypeError\<close> before a row is read, and no
  worker sends a notification. The monitor then waits for ever for its first message,
  and \<^verbatim>\<open>main_thread.join()\<close> does not return.
\<close>

lemma worker_call_rejected:
  "call_apply_single worker_kwds shard fld func show_bar pipe = ([], Inl TypeError)"
  by (simp add: call_apply_single_def worker_kwds_def apply_single_params_def)

lemma no_worker_sends:
  "concat (map (\<lambda>run. sends (fst run))
             (map (\<lambda>shard. call_apply_single worker_kwds shard fld func show_bar pipe)
                  shard_data)) = []"
  by (induction shard_data) (simp_all add: worker_call_rejected sends_def)

lemma no_worker_sends_comp:
  "concat (map ((\<lambda>run. sends (fst run)) \<circ>
                (\<lambda>shard. call_apply_single worker_kwds shard fld func show_bar pipe))
             shard_data) = []"
  using no_worker_sends [of fld func show_bar pipe shard_data] by (simp only: map_map)

lemma monitor_without_messages: "progress_bar (map Some []) n = Blocked 0"
  by (simp add: progress_bar_def)

lemma apply_process_multi:
  assumes "num_proc \<noteq> 0"
  shows "apply_process ds num_proc func show_bar fld =
    (let k = (if num_proc > len ds then len ds else num_proc);
         tr0 = (if num_proc > len ds then [PrintReduce (len ds)] else [])
     in if k = 0 then (tr0, Some (Inl ZeroDivisionError))
        else (case slice_shards ds (shard_bounds (len ds) k) of
                Inl e \<Rightarrow> (tr0, Some (Inl e))
              | Inr shard_data \<Rightarrow>
                  (tr0 @ [MkPipe, StartThread, MkPool k] @ map Submit [0..<length shard_data] @
                   [PoolClose, PoolJoin], None)))"
  using assms
  by (simp add: apply_process_def Let_def no_worker_sends_comp progress_bar_def
        split: sum.splits)

lemma apply_process_multi_no_result:
  assumes "num_proc \<noteq> 0"
  shows "snd (apply_process ds num_proc func show_bar fld) \<noteq> Some (Inr rs)"
  by (simp add: apply_process_multi [OF assms] Let_def split: sum.splits)


lemma shard_start_le: "i \<le> j \<Longrightarrow> shard_start n k i \<le> shard_start n k j"
  unfolding shard_start_def by (intro add_mono mult_le_mono1 min.mono) simp_all

lemma shard_bounds_in_range:
  assumes "1 \<le> k" and "k \<le> n" and "(s, e) \<in> set (shard_bounds n k)"
  shows "s < n \<and> e \<le> n"
proof -
  from assms(3) obtain i where i: "i < k" and s: "s = shard_start n k i"
    and e: "e = shard_start n k (Suc i)"
    by (auto simp: shard_bounds_closed)
  have "0 < n div k" using assms by (simp add: div_greater_zero_iff)
  then have "shard_start n k i < shard_start n k (Suc i)"
    by (simp add: shard_start_def min_def)
  moreover have "shard_start n k (Suc i) \<le> shard_start n k k"
    using i by (intro shard_start_le) simp
  moreover have "shard_start n k k = n" using assms(1) by (intro shard_start_last) simp
  ultimately show ?thesis using s e by simp
qed

lemma slice_shards_ok:
  assumes "same_length ds" and "unique_names ds"
    and "\<forall>(s, e)\<in>set bounds. s < len ds \<and> e \<le> len ds"
  shows "slice_shards ds bounds =
           Inr (map (\<lambda>(s, e). \<lparr>field_arrays =
                      map (\<lambda>(n, c). (n, take (e - s) (drop s c))) (field_arrays ds)\<rparr>) bounds)"
  using assms(3)
proof (induction bounds)
  case Nil
  then show ?case by simp
next
  case (Cons p bounds)
  obtain s e where p: "p = (s, e)" by (cases p)
  with Cons.prems have r: "s < len ds" "e \<le> len ds" by simp_all
  have "getitem_slice ds (Some (int s)) (Some (int e)) =
          Inr \<lparr>field_arrays = map (\<lambda>(n, c). (n, take (e - s) (drop s c))) (field_arrays ds)\<rparr>"
    using assms(1,2) r by (rule getitem_slice_ok)
  moreover have "slice_shards ds bounds =
           Inr (map (\<lambda>(s, e). \<lparr>field_arrays =
                      map (\<lambda>(n, c). (n, take (e - s) (drop s c))) (field_arrays ds)\<rparr>) bounds)"
    using Cons by simp
  ultimately show ?case using p by simp
qed

lemma apply_process_multi_blocks:
  assumes "same_length ds" and "unique_names ds" and "1 \<le> len ds" and "1 \<le> num_proc"
  shows "apply_process ds num_proc func show_bar fld =
    ((if num_proc > len ds then [PrintReduce (len ds)] else []) @
     [MkPipe, StartThread, MkPool (min num_proc (len ds))] @
     map Submit [0..<min num_proc (len ds)] @ [PoolClose, PoolJoin], None)"
proof -
  let ?k = "if num_proc > len ds then len ds else num_proc"
  have k: "?k = min num_proc (len ds)" by simp
  have k1: "1 \<le> min num_proc (len ds)" "min num_proc (len ds) \<le> len ds"
    using assms(3,4) by simp_all
  have "\<forall>(s, e)\<in>set (shard_bounds (len ds) (min num_proc (len ds))). s < len ds \<and> e \<le> len ds"
    using shard_bounds_in_range [OF k1] by blast
  from slice_shards_ok [OF assms(1,2) this]
  obtain shard_data where sd: "slice_shards ds (shard_bounds (len ds) (min num_proc (len ds))) = Inr shard_data"
    and l: "length shard_data = min num_proc (len ds)"
    by (simp add: shard_bounds_closed)
  have ne: "num_proc \<noteq> 0" using assms(4) by simp
  show ?thesis
    unfolding apply_process_multi [OF ne] Let_def k
    using k1 sd l by simp
qed

text \<open>A dataset with the column \<open>x = [1, 2, 3, 4]\<close> and a user function that doubles
  a value (of the field \<open>x\<close>, when it is given the row).\<close>

definition twice :: "int func_arg \<Rightarrow> error + int" where
  "twice arg =
     (case arg of
        Val v \<Rightarrow> Inr (2 * v)
      | Row ins \<Rightarrow>
          (case map_of ins ''x'' of None \<Rightarrow> Inl (KeyError ''x'') | Some v \<Rightarrow> Inr (2 * v)))"

definition ds_x4 :: "int DataSet" where
  "ds_x4 = \<lparr>field_arrays = [(''x'', [1, 2, 3, 4])]\<rparr>"

lemma apply_multi_never_returns:
  assumes "same_length ds" and "unique_names ds" and "1 \<le> len ds" and "1 \<le> num_proc"
  shows "snd (apply_ds func new_field_name num_proc show_bar ds) = (None, ds)"
    and "snd (apply_more func' modify_fields num_proc show_bar ds) = (None, ds)"
  using assms
  by (simp_all add: apply_ds_def apply_more_def merge_and_write_def
        apply_process_multi_blocks [OF assms])

lemma single_loop_local:
  "list_all local_event (fst (single_loop ds fld func show_bar False is idx results))"
proof (induction "is" arbitrary: idx results)
  case Nil
  then show ?case by simp
next
  case (Cons i rest)
  have "list_all local_event
          (fst (single_loop ds fld func show_bar False rest (int i) (results @ [r])))" for r
    by (rule Cons.IH)
  then show ?case
    by (auto simp: case_prod_unfold split: sum.splits)
qed

lemma apply_single_local:
  "list_all local_event (fst (apply_single ds fld func show_bar False))"
  using single_loop_local [of ds fld func show_bar "[0..<len ds]" "- 1" "[]"]
  by (auto simp: apply_single_def case_prod_unfold split: sum.splits)

text \<open>
  C2 (for a user function that raises no error, \<^verbatim>\<open>apply\<close> returns the same result
  sequence for every worker count from 0 to \<open>N\<close>) does not hold of the code. On the
  dataset \<open>x = [1, 2, 3, 4]\<close> with the doubling function, \<^verbatim>\<open>apply_field\<close> with worker
  count 0 returns \<open>[2, 4, 6, 8]\<close>; with worker count 2 it creates the pipe, the monitor
  thread and the pool, submits both shards, and does not return, because each worker
  call is rejected and the monitor waits for notifications that are never sent.
\<close>

theorem apply_field_two_workers_blocks:
  "apply_field twice ''x'' None 0 True ds_x4 =
     ([AddTask 4, Call 0, Advance, Call 1, Advance, Call 2, Advance, Call 3, Advance, DestroyTask],
      Some (Inr [2, 4, 6, 8]), ds_x4)
   \<and> apply_field twice ''x'' None 2 True ds_x4 =
     ([MkPipe, StartThread, MkPool 2, Submit 0, Submit 1, PoolClose, PoolJoin], None, ds_x4)"
  by code_simp

text \<open>
  C6, as amended. Worker count 0, and only 0, runs one worker task over the whole
  dataset in the invoking process: the call is \<^verbatim>\<open>_apply_single\<close> on the dataset
  itself without a pipe, its trace holds only local events (progress display, calls
  of the user function, the print of a failing index), it starts and ends the
  progress display when that is asked for, and its outcome is returned as it is.
  Worker count 1 is not run in process: on a non-empty dataset whose columns have one
  length it takes the multi-process path, which creates the pipe, starts the monitor
  thread, creates a pool of one process and submits one shard.
\<close>

theorem only_zero_workers_runs_in_process:
  "(\<exists>tr out. apply_single ds fld func show_bar False = (tr, out)
       \<and> apply_process ds 0 func show_bar fld = (tr, Some out)
       \<and> list_all local_event tr
       \<and> (show_bar \<longrightarrow> (\<exists>mid. tr = AddTask (len ds) # mid @ [DestroyTask])))
   \<and> (same_length ds \<and> unique_names ds \<and> 1 \<le> len ds \<longrightarrow>
        (\<exists>rest. fst (apply_process ds 1 func show_bar fld) =
                  [MkPipe, StartThread, MkPool 1, Submit 0] @ rest))"
proof (intro conjI impI)
  obtain tr out where run: "apply_single ds fld func show_bar False = (tr, out)"
    by (cases "apply_single ds fld func show_bar False")
  have p: "apply_process ds 0 func show_bar fld = (tr, Some out)"
    by (simp add: apply_process_def run)
  have l: "list_all local_event tr"
    using apply_single_local [of ds fld func show_bar] by (simp add: run)
  have b: "show_bar \<longrightarrow> (\<exists>mid. tr = AddTask (len ds) # mid @ [DestroyTask])"
  proof
    assume "show_bar"
    with run show "\<exists>mid. tr = AddTask (len ds) # mid @ [DestroyTask]"
      by (auto simp: apply_single_def case_prod_unfold)
  qed
  from run p l b show "\<exists>tr out. apply_single ds fld func show_bar False = (tr, out)
       \<and> apply_process ds 0 func show_bar fld = (tr, Some out)
       \<and> list_all local_event tr
       \<and> (show_bar \<longrightarrow> (\<exists>mid. tr = AddTask (len ds) # mid @ [DestroyTask]))"
    by blast
next
  assume a: "same_length ds \<and> unique_names ds \<and> 1 \<le> len ds"
  then have "apply_process ds 1 func show_bar fld =
      ([MkPipe, StartThread, MkPool 1] @ map Submit [0..<1] @ [PoolClose, PoolJoin], None)"
    using apply_process_multi_blocks [of ds 1 func show_bar fld] by (simp add: min_def)
  then show "\<exists>rest. fst (apply_process ds 1 func show_bar fld) =
                  [MkPipe, StartThread, MkPool 1, Submit 0] @ rest"
    by simp
qed

text \<open>The claim as stated (worker count 1 runs in process, with no channel and no pool,
  and returns the result of the one worker task) fails on the dataset
  \<open>x = [1, 2, 3, 4]\<close>.\<close>

theorem one_worker_creates_pool_counterexample:
  "fst (apply_process ds_x4 1 twice True None) =
     [MkPipe, StartThread, MkPool 1, Submit 0, PoolClose, PoolJoin]
   \<and> \<not> list_all local_event (fst (apply_process ds_x4 1 twice True None))
   \<and> snd (apply_process ds_x4 1 twice True None) \<noteq> Some (snd (apply_single ds_x4 None twice True False))"
  by code_simp

theorem only_zero_workers_runs_in_process_witness:
  "same_length ds_x4 \<and> unique_names ds_x4 \<and> 1 \<le> len ds_x4
   \<and> (\<exists>tr out. apply_single ds_x4 None twice True False = (tr, out)
       \<and> apply_process ds_x4 0 twice True None = (tr, Some out)
       \<and> list_all local_event tr
       \<and> (\<exists>mid. tr = AddTask (len ds_x4) # mid @ [DestroyTask]))
   \<and> (\<exists>rest. fst (apply_process ds_x4 1 twice True None) =
                  [MkPipe, StartThread, MkPool 1, Submit 0] @ rest)"
proof -
  have h: "same_length ds_x4 \<and> unique_names ds_x4 \<and> 1 \<le> len ds_x4"
    by (simp add: ds_x4_def same_length_def unique_names_def len_def)
  note t = only_zero_workers_runs_in_process [of ds_x4 None twice True]
  from t [THEN conjunct1]
  have a: "\<exists>tr out. apply_single ds_x4 None twice True False = (tr, out)
       \<and> apply_process ds_x4 0 twice True None = (tr, Some out)
       \<and> list_all local_event tr
       \<and> (\<exists>mid. tr = AddTask (len ds_x4) # mid @ [DestroyTask])"
    by simp
  note b = t [THEN conjunct2, rule_format, OF h]
  show ?thesis
    using h a b by (intro conjI) simp_all
qed

section \<open>The progress monitor and the notifications of the workers\<close>

text \<open>
  The monitor counts every message that is not \<open>None\<close> once, and returns on the
  message that brings the counter to the target; with fewer messages it is left
  blocked, its counter at the number of messages. What it does depends on the number
  of the messages only, not on the order of their arrival.
\<close>

lemma progress_loop_count:
  assumes "\<forall>m\<in>set ms. m \<noteq> None"
  shows "progress_loop tot nums ms =
     (if nums < tot \<and> tot - nums \<le> length ms
      then Finished tot (drop (tot - nums) ms)
      else Blocked (nums + length ms))"
  using assms
proof (induction ms arbitrary: nums)
  case Nil
  then show ?case by simp
next
  case (Cons m ms)
  from Cons.prems have m: "m \<noteq> None" by simp
  have ih: "progress_loop tot (Suc nums) ms =
     (if Suc nums < tot \<and> tot - Suc nums \<le> length ms
      then Finished tot (drop (tot - Suc nums) ms)
      else Blocked (Suc nums + length ms))"
    by (rule Cons.IH) (use Cons.prems in simp)
  show ?case
  proof (cases "Suc nums = tot")
    case True
    then show ?thesis using m by auto
  next
    case False
    have "progress_loop tot nums (m # ms) = progress_loop tot (Suc nums) ms"
      using m False by (simp add: Let_def)
    also note ih
    finally show ?thesis
      using False by (auto simp: Suc_diff_le drop_Cons' not_less)
  qed
qed

lemma monitor_any_order:
  assumes "\<forall>m\<in>set ms. m \<noteq> None" and "1 \<le> n"
  shows "progress_bar ms n =
     (if n \<le> length ms then Finished n (drop n ms) else Blocked (length ms))"
  using progress_loop_count [OF assms(1), of n 0] assms(2)
  by (simp add: progress_bar_def)

lemma sum_len_update:
  "i < length qs \<Longrightarrow> qs ! i = m # q \<Longrightarrow>
   sum_list (map length qs) = Suc (sum_list (map length (qs[i := q])))"
proof (induction qs arbitrary: i)
  case Nil
  then show ?case by simp
next
  case (Cons a qs)
  show ?case
  proof (cases i)
    case 0
    with Cons.prems show ?thesis by simp
  next
    case (Suc k)
    with Cons.prems have "k < length qs" "qs ! k = m # q" by simp_all
    then have "sum_list (map length qs) = Suc (sum_list (map length (qs[k := q])))"
      by (rule Cons.IH)
    with Suc show ?thesis by simp
  qed
qed

lemma interleaving_length:
  "interleaving qs ms \<Longrightarrow> length ms = sum_list (map length qs)"
proof (induction rule: interleaving.induct)
  case (drained qs)
  then have "\<forall>q\<in>set qs. length q = 0" by (simp add: list_all_iff)
  then have "sum_list (map length qs) = 0" by (induction qs) simp_all
  then show ?case by simp
next
  case (arrives i qs m q ms)
  then show ?case by (simp add: sum_len_update)
qed

lemma interleaving_elements:
  "interleaving qs ms \<Longrightarrow> x \<in> set ms \<Longrightarrow> \<exists>q\<in>set qs. x \<in> set q"
proof (induction rule: interleaving.induct)
  case (drained qs)
  then show ?case by simp
next
  case (arrives i qs m q ms)
  show ?case
  proof (cases "x = m")
    case True
    have "qs ! i \<in> set qs" using arrives.hyps(1) by simp
    with True arrives.hyps(2) show ?thesis by (intro bexI [of _ "qs ! i"]) simp_all
  next
    case False
    with arrives.prems have "x \<in> set ms" by simp
    then obtain q' where q': "q' \<in> set (qs[i := q])" "x \<in> set q'"
      using arrives.IH by blast
    from q'(1) have "q' = q \<or> q' \<in> set qs"
      using set_update_subset_insert [of qs i q] by auto
    then show ?thesis
    proof
      assume "q' = q"
      with q'(2) have "x \<in> set (qs ! i)" using arrives.hyps(2) by simp
      moreover have "qs ! i \<in> set qs" using arrives.hyps(1) by simp
      ultimately show ?thesis by blast
    next
      assume "q' \<in> set qs"
      with q'(2) show ?thesis by blast
    qed
  qed
qed

lemma sum_bounded_eq:
  "\<forall>x\<in>set xs. f x \<le> (g x :: nat) \<Longrightarrow>
   sum_list (map f xs) \<le> sum_list (map g xs)
   \<and> (sum_list (map f xs) = sum_list (map g xs) \<longleftrightarrow> (\<forall>x\<in>set xs. f x = g x))"
proof (induction xs)
  case Nil
  then show ?case by simp
next
  case (Cons a xs)
  then have ih: "sum_list (map f xs) \<le> sum_list (map g xs)"
    "sum_list (map f xs) = sum_list (map g xs) \<longleftrightarrow> (\<forall>x\<in>set xs. f x = g x)"
    by simp_all
  from Cons.prems have a: "f a \<le> g a" by simp
  show ?case
    using a ih by auto
qed


lemma upt_split: "j < n \<Longrightarrow> [0..<n] = [0..<j] @ j # [Suc j..<n]"
proof -
  assume j: "j < n"
  have a: "[0..<j + (n - j)] = [0..<j] @ [j..<j + (n - j)]"
    by (rule upt_add_eq_append) simp
  have b: "j + (n - j) = n" using j by simp
  have c: "[j..<n] = j # [Suc j..<n]" using j by (rule upt_conv_Cons)
  show ?thesis using a unfolding b c .
qed

lemma sends_Nil: "sends [] = []"
  by (simp add: sends_def)

lemma worker_events: "row_events False True = (\<lambda>i. [Call (int i), Send (int i + 1)])"
  by (rule ext) (simp add: row_events_def)

lemma worker_run:
  "\<exists>c rest. c \<le> len ds
      \<and> fst (apply_single ds fld func False True) =
          concat (map (\<lambda>i. [Call (int i), Send (int i + 1)]) [0..<c]) @ rest
      \<and> sends rest = []
      \<and> sends (fst (apply_single ds fld func False True)) = map (\<lambda>i. int i + 1) [0..<c]
      \<and> ((\<exists>rs. snd (apply_single ds fld func False True) = Inr rs \<and> length rs = len ds)
            \<longleftrightarrow> c = len ds)"
proof (cases "\<forall>i<len ds. \<exists>r. row_result ds fld func i = Inr r")
  case True
  let ?g = "\<lambda>i. projr (row_result ds fld func i)"
  have "\<forall>i<len ds. row_result ds fld func i = Inr (?g i)"
    using True by auto
  from apply_single_ok [OF this, of False True]
  have run: "apply_single ds fld func False True =
      (concat (map (\<lambda>i. [Call (int i), Send (int i + 1)]) [0..<len ds]), Inr (map ?g [0..<len ds]))"
    by (simp add: worker_events)
  have s: "sends (concat (map (\<lambda>i. [Call (int i), Send (int i + 1)]) [0..<len ds])) =
      map (\<lambda>i. int i + 1) [0..<len ds]"
    using sends_rows [of False True "[0..<len ds]"] by (simp add: worker_events)
  show ?thesis
    by (rule exI [of _ "len ds"], rule exI [of _ "[]"]) (simp add: run s sends_Nil)
next
  case False
  then have ex: "\<exists>i. i < len ds \<and> (\<forall>r. row_result ds fld func i \<noteq> Inr r)" by auto
  define j where "j = (LEAST i. i < len ds \<and> (\<forall>r. row_result ds fld func i \<noteq> Inr r))"
  have jp: "j < len ds \<and> (\<forall>r. row_result ds fld func j \<noteq> Inr r)"
    unfolding j_def using ex by (rule LeastI_ex)
  have before: "\<exists>r. row_result ds fld func i = Inr r" if "i < j" for i
  proof (rule ccontr)
    assume "\<not> (\<exists>r. row_result ds fld func i = Inr r)"
    with that jp have "i < len ds \<and> (\<forall>r. row_result ds fld func i \<noteq> Inr r)" by simp
    then have "j \<le> i" unfolding j_def by (rule Least_le)
    with that show False by simp
  qed
  from jp obtain e where e: "row_result ds fld func j = Inl e"
    by (cases "row_result ds fld func j") auto
  let ?g = "\<lambda>i. projr (row_result ds fld func i)"
  have pre: "\<forall>i\<in>set [0..<j]. row_result ds fld func i = Inr (?g i)"
  proof
    fix i assume "i \<in> set [0..<j]"
    then have "i < j" by simp
    then obtain r where "row_result ds fld func i = Inr r" using before by blast
    then show "row_result ds fld func i = Inr (?g i)" by simp
  qed
  obtain tr idx' where hd: "single_loop ds fld func False True (j # [Suc j..<len ds])
        (if [0..<j] = [] then - 1 else int (last [0..<j])) ([] @ map ?g [0..<j]) = (tr, idx', Inl e)"
    and st: "sends tr = []"
    using single_loop_fail_head [OF e] by blast
  have loop: "single_loop ds fld func False True [0..<len ds] (- 1) [] =
      (concat (map (row_events False True) [0..<j]) @ tr, idx', Inl e)"
    unfolding upt_split [OF jp [THEN conjunct1]]
    using single_loop_ok_prefix [OF pre, of False True "j # [Suc j..<len ds]" "- 1" "[]"] hd
    by simp
  let ?rest = "tr @ (if idx' \<noteq> - 1 then [PrintAt idx'] else [])"
  have run: "apply_single ds fld func False True =
      (concat (map (\<lambda>i. [Call (int i), Send (int i + 1)]) [0..<j]) @ ?rest, Inl e)"
    by (simp add: apply_single_def loop worker_events)
  have sr: "sends ?rest = []"
  proof -
    have "sends (if idx' \<noteq> - 1 then [PrintAt idx'] else []) = []"
      by (simp add: sends_def)
    then show ?thesis by (simp only: sends_append st append_Nil)
  qed
  have s: "sends (concat (map (\<lambda>i. [Call (int i), Send (int i + 1)]) [0..<j])) =
      map (\<lambda>i. int i + 1) [0..<j]"
    using sends_rows [of False True "[0..<j]"] by (simp add: worker_events)
  have all: "sends (fst (apply_single ds fld func False True)) = map (\<lambda>i. int i + 1) [0..<j]"
    by (simp only: run fst_conv sends_append [of _ ?rest] s sr append_Nil2)
  have c1: "j \<le> len ds" using jp by simp
  have c2: "fst (apply_single ds fld func False True) =
          concat (map (\<lambda>i. [Call (int i), Send (int i + 1)]) [0..<j]) @ ?rest"
    by (simp only: run fst_conv)
  have c5: "(\<exists>rs. snd (apply_single ds fld func False True) = Inr rs \<and> length rs = len ds)
            \<longleftrightarrow> j = len ds"
    using jp by (simp add: run)
  show ?thesis
    by (rule exI [of _ j], rule exI [of _ ?rest])
       (rule conjI [OF c1 conjI [OF c2 conjI [OF sr conjI [OF all c5]]]])
qed

text \<open>
  C3. Worker tasks run \<^verbatim>\<open>_apply_single\<close> with a pipe, each on its shard, and the
  monitor reads what they send in any order of arrival (an interleaving), its counter
  starting at 0 and its target being the number \<open>N \<ge> 1\<close> of all rows. Then: the monitor
  returns, with its counter at \<open>N\<close> and every notification read, if and only if every
  worker completed every row of its shard; otherwise it stays blocked with its counter
  at the number of notifications received, which is below \<open>N\<close> (one increment for each
  notification); and every worker's trace is, for the rows it completed, the call of
  the user function on a row followed at once by the notification \<open>idx + 1\<close> for that
  row, before the next row, with no notification after that, and the rows it
  completed are all rows of its shard exactly when it returns its results.
\<close>

theorem progress_completeness:
  assumes il: "interleaving
                 (map (\<lambda>sh. map Some (sends (fst (apply_single sh fld func False True)))) shards)
                 ms"
    and n: "1 \<le> sum_list (map len shards)"
  shows "(progress_bar ms (sum_list (map len shards)) = Finished (sum_list (map len shards)) []
            \<longleftrightarrow> (\<forall>sh\<in>set shards. \<exists>rs. snd (apply_single sh fld func False True) = Inr rs
                                         \<and> length rs = len sh))
       \<and> (progress_bar ms (sum_list (map len shards)) = Finished (sum_list (map len shards)) []
            \<or> (progress_bar ms (sum_list (map len shards)) = Blocked (length ms)
                \<and> length ms < sum_list (map len shards)))
       \<and> (\<forall>sh\<in>set shards. \<exists>c rest. c \<le> len sh
              \<and> fst (apply_single sh fld func False True) =
                  concat (map (\<lambda>i. [Call (int i), Send (int i + 1)]) [0..<c]) @ rest
              \<and> sends rest = []
              \<and> ((\<exists>rs. snd (apply_single sh fld func False True) = Inr rs \<and> length rs = len sh)
                    \<longleftrightarrow> c = len sh))"
proof -
  let ?N = "sum_list (map len shards)"
  let ?w = "\<lambda>sh. length (sends (fst (apply_single sh fld func False True)))"
  let ?done = "\<lambda>sh. \<exists>rs. snd (apply_single sh fld func False True) = Inr rs \<and> length rs = len sh"
  have w: "?w sh \<le> len sh \<and> (?done sh \<longleftrightarrow> ?w sh = len sh)" for sh
  proof -
    from worker_run [of sh fld func] obtain c rest where
      "c \<le> len sh" and
      "sends (fst (apply_single sh fld func False True)) = map (\<lambda>i. int i + 1) [0..<c]" and
      "?done sh \<longleftrightarrow> c = len sh"
      by blast
    then show ?thesis by simp
  qed
  have lm: "length ms = sum_list (map ?w shards)"
    using interleaving_length [OF il] by (simp add: comp_def)
  have some: "\<forall>m\<in>set ms. m \<noteq> None"
  proof
    fix m assume "m \<in> set ms"
    from interleaving_elements [OF il this] show "m \<noteq> None" by auto
  qed
  have bound: "\<forall>sh\<in>set shards. ?w sh \<le> len sh" using w by blast
  from sum_bounded_eq [OF bound]
  have le: "length ms \<le> ?N" and eq: "length ms = ?N \<longleftrightarrow> (\<forall>sh\<in>set shards. ?w sh = len sh)"
    unfolding lm by simp_all
  have all: "length ms = ?N \<longleftrightarrow> (\<forall>sh\<in>set shards. ?done sh)"
    using eq w by blast
  have mon: "progress_bar ms ?N =
     (if ?N \<le> length ms then Finished ?N (drop ?N ms) else Blocked (length ms))"
    using some n by (rule monitor_any_order)
  have fin: "progress_bar ms ?N = Finished ?N [] \<longleftrightarrow> length ms = ?N"
    using le by (auto simp: mon)
  have c1: "progress_bar ms ?N = Finished ?N [] \<longleftrightarrow> (\<forall>sh\<in>set shards. ?done sh)"
    using fin all by simp
  have c2: "progress_bar ms ?N = Finished ?N []
            \<or> (progress_bar ms ?N = Blocked (length ms) \<and> length ms < ?N)"
    using le by (auto simp: mon)
  have c3: "\<forall>sh\<in>set shards. \<exists>c rest. c \<le> len sh
              \<and> fst (apply_single sh fld func False True) =
                  concat (map (\<lambda>i. [Call (int i), Send (int i + 1)]) [0..<c]) @ rest
              \<and> sends rest = []
              \<and> (?done sh \<longleftrightarrow> c = len sh)"
  proof
    fix sh
    from worker_run [of sh fld func]
    show "\<exists>c rest. c \<le> len sh
              \<and> fst (apply_single sh fld func False True) =
                  concat (map (\<lambda>i. [Call (int i), Send (int i + 1)]) [0..<c]) @ rest
              \<and> sends rest = []
              \<and> (?done sh \<longleftrightarrow> c = len sh)"
      by blast
  qed
  show ?thesis
    by (rule conjI [OF c1 conjI [OF c2 c3]])
qed

text \<open>Two shards, of two rows and of one row, whose notifications arrive
  interleaved.\<close>

definition two_shards :: "int DataSet list" where
  "two_shards = [\<lparr>field_arrays = [(''x'', [1, 2])]\<rparr>, \<lparr>field_arrays = [(''x'', [3])]\<rparr>]"

theorem progress_completeness_witness:
  "interleaving
     (map (\<lambda>sh. map Some (sends (fst (apply_single sh (Some ''x'') twice False True)))) two_shards)
     [Some 1, Some 1, Some 2]
   \<and> 1 \<le> sum_list (map len two_shards)
   \<and> map (\<lambda>sh. snd (apply_single sh (Some ''x'') twice False True)) two_shards =
        [Inr [2, 4], Inr [6]]
   \<and> progress_bar [Some 1, Some 1, Some 2] (sum_list (map len two_shards)) =
        Finished (sum_list (map len two_shards)) []"
proof -
  have q: "map (\<lambda>sh. map Some (sends (fst (apply_single sh (Some ''x'') twice False True)))) two_shards
           = [[Some 1, Some 2], [Some 1]]"
    by code_simp
  have i3: "interleaving [[], []] ([] :: int option list)"
    by (rule interleaving.drained) simp
  have i2: "interleaving [[Some 2], []] [Some (2::int)]"
    using interleaving.arrives [of 0 "[[Some 2], []]" "Some (2::int)" "[]" "[]"] i3 by simp
  have i1: "interleaving [[Some 2], [Some 1]] [Some (1::int), Some 2]"
    using interleaving.arrives [of 1 "[[Some 2], [Some 1]]" "Some (1::int)" "[]" "[Some 2]"] i2
    by simp
  have i0: "interleaving [[Some 1, Some 2], [Some 1]] [Some (1::int), Some 1, Some 2]"
    using interleaving.arrives [of 0 "[[Some 1, Some 2], [Some 1]]" "Some (1::int)" "[Some 2]"
        "[Some 1, Some 2]"] i1
    by simp
  have h1: "interleaving
     (map (\<lambda>sh. map Some (sends (fst (apply_single sh (Some ''x'') twice False True)))) two_shards)
     [Some 1, Some 1, Some 2]"
    unfolding q by (rule i0)
  have h2: "1 \<le> sum_list (map len two_shards)" by code_simp
  have outs: "map (\<lambda>sh. snd (apply_single sh (Some ''x'') twice False True)) two_shards =
        [Inr [2, 4], Inr [6]]"
    by code_simp
  have lens: "map len two_shards = [2, 1]" by code_simp
  have dn: "\<forall>sh\<in>set two_shards. \<exists>rs. snd (apply_single sh (Some ''x'') twice False True) = Inr rs
                                         \<and> length rs = len sh"
    using outs lens by (simp add: two_shards_def)
  note t = progress_completeness [OF h1 h2, THEN conjunct1]
  from t dn have fin: "progress_bar [Some 1, Some 1, Some 2] (sum_list (map len two_shards)) =
        Finished (sum_list (map len two_shards)) []"
    by (rule iffD2)
  show ?thesis
    by (rule conjI [OF h1 conjI [OF h2 conjI [OF outs fin]]])
qed

section \<open>Merging the results of a multi-field apply\<close>

text \<open>
  The two inner loops of the merge are the loops of \<^verbatim>\<open>append\<close> with other
  exceptions. A merge that succeeds has met, in every row after the first, exactly
  the keys of the first row, so that every merged column has one value for each row.
\<close>

lemma seed_results_append_first: "seed_results d results = append_first d results"
  by (induction d arbitrary: results) auto

lemma merge_row_append_loop:
  "merge_row d results = (Inr (), r') \<longleftrightarrow> append_loop d results = (Inr (), r')"
  by (induction d arbitrary: results) (auto split: option.splits)

lemma merge_row_ok:
  assumes "distinct (map fst results)" and "distinct (map fst d)"
    and "merge_row d results = (Inr (), r')"
  shows "r' = map (\<lambda>(n, c). (n, case map_of d n of None \<Rightarrow> c | Some v \<Rightarrow> c @ [v])) results
         \<and> set (map fst d) \<subseteq> set (map fst results)"
  using assms(1,2) assms(3) [unfolded merge_row_append_loop] by (rule append_loop_ok)

lemma merge_row_lengths:
  assumes dr: "distinct (map fst results)" and dd: "distinct (map fst d)"
    and m: "list_all (\<lambda>(n, c). length c = m) results"
    and chk: "set (map fst results) - set (map fst d) = {}"
    and run: "merge_row d results = (Inr (), r')"
  shows "map fst r' = map fst results \<and> list_all (\<lambda>(n, c). length c = Suc m) r'"
proof -
  let ?h = "\<lambda>(n, c). (n, case map_of d n of None \<Rightarrow> c | Some v \<Rightarrow> c @ [v])"
  from merge_row_ok [OF dr dd run] have r': "r' = map ?h results" by simp
  have keys: "map fst r' = map fst results"
    unfolding r' by (simp add: comp_def case_prod_unfold)
  have "length (snd (?h x)) = Suc m" if "x \<in> set results" for x
  proof -
    obtain n c where x: "x = (n, c)" by (cases x)
    with that have "n \<in> set (map fst results)" by force
    with chk have "n \<in> set (map fst d)" by auto
    then obtain v where "map_of d n = Some v"
      by (metis map_of_eq_None_iff not_Some_eq set_map)
    moreover from that x m have "length c = m" by (auto simp: list_all_iff)
    ultimately show ?thesis using x by simp
  qed
  then have "list_all (\<lambda>(n, c). length c = Suc m) r'"
    unfolding r' by (auto simp: list_all_iff)
  with keys show ?thesis by simp
qed

lemma merge_loop_lengths:
  assumes "distinct (map fst results)"
    and "list_all (\<lambda>(n, c). length c = m) results"
    and "\<forall>r\<in>set rest. \<forall>d. r = Dict d \<longrightarrow> distinct (map fst d)"
    and "merge_loop rest idx results = Inr r'"
  shows "list_all (\<lambda>(n, c). length c = m + length rest) r'"
  using assms
proof (induction rest arbitrary: idx results m)
  case Nil
  then show ?case by simp
next
  case (Cons per_out rest)
  from Cons.prems(4) obtain d where d: "per_out = Dict d"
    by (cases per_out) auto
  from Cons.prems(4) d have chk: "set (map fst results) - set (map fst d) = {}"
    by (auto split: if_splits)
  from Cons.prems(4) d chk obtain r1 where row: "merge_row d results = (Inr (), r1)"
    and rest: "merge_loop rest (idx + 1) r1 = Inr r'"
    by (auto split: prod.splits sum.splits if_splits)
  have dd: "distinct (map fst d)" using Cons.prems(3) d by simp
  from merge_row_lengths [OF Cons.prems(1) dd Cons.prems(2) chk row]
  have k: "map fst r1 = map fst results" and l: "list_all (\<lambda>(n, c). length c = Suc m) r1"
    by simp_all
  have "list_all (\<lambda>(n, c). length c = Suc m + length rest) r'"
  proof (rule Cons.IH)
    show "distinct (map fst r1)" by (simp only: k Cons.prems(1))
    show "list_all (\<lambda>(n, c). length c = Suc m) r1" by (rule l)
    show "\<forall>r\<in>set rest. \<forall>d. r = Dict d \<longrightarrow> distinct (map fst d)"
      using Cons.prems(3) by simp
    show "merge_loop rest (idx + 1) r1 = Inr r'" by (rule rest)
  qed
  then show ?case by simp
qed

lemma merge_lengths:
  assumes "\<forall>r\<in>set apply_out. \<forall>d. r = Dict d \<longrightarrow> distinct (map fst d)"
    and "merge apply_out = (tr, Inr results)"
  shows "list_all (\<lambda>(n, c). length c = length apply_out) results"
proof -
  from assms(2) obtain d rest where ao: "apply_out = Dict d # rest"
    by (cases apply_out; cases "hd apply_out") (auto simp: merge_def)
  with assms(2) have loop: "merge_loop rest 0 (seed_results d []) = Inr results"
    by (auto simp: merge_def split: sum.splits prod.splits)
  have dd: "distinct (map fst d)" using assms(1) ao by simp
  have seed: "seed_results d [] = map (\<lambda>(n, v). (n, [v])) d"
    unfolding seed_results_append_first
    using append_first_ok [of "[]" d] dd by simp
  have "list_all (\<lambda>(n, c). length c = 1 + length rest) results"
  proof (rule merge_loop_lengths)
    show "distinct (map fst (seed_results d []))"
      unfolding seed using dd by (simp add: comp_def case_prod_unfold)
    show "list_all (\<lambda>(n, c). length c = 1) (seed_results d [])"
      unfolding seed by (simp add: list_all_iff case_prod_unfold)
    show "\<forall>r\<in>set rest. \<forall>d. r = Dict d \<longrightarrow> distinct (map fst d)"
      using assms(1) ao by simp
    show "merge_loop rest 0 (seed_results d []) = Inr results" by (rule loop)
  qed
  with ao show ?thesis by simp
qed

end
